theory Spec2Isabelle
  imports Complex_Main "HOL-Library.Log_Nat" "HOL-Library.Word"
begin

section \<open>JavaScript numbers\<close>

text \<open>
  The detector computes with JavaScript numbers, that is IEEE-754 binary64 values. A finite
  double is modelled by the real number it denotes. The operators \<open>+\<close>, \<open>-\<close>, \<open>*\<close> and
  \<open>/\<close> return the exact result rounded to 53 significant bits, ties to even (\<open>fl\<close>).
  Overflow and subnormal numbers are outside the model: the quantities of the detector stay
  far away from both. Integer-valued counters and coordinates are modelled by unbounded
  integers, which is exact as long as they stay below \<open>2^53\<close>.
\<close>

definition rne :: "real \<Rightarrow> int" where
  "rne x = (let f = \<lfloor>x\<rfloor>; d = x - of_int f in
             if d < 1 / 2 then f else if 1 / 2 < d then f + 1
             else if even f then f else f + 1)"

definition pow2 :: "int \<Rightarrow> real" where
  "pow2 e = (if 0 \<le> e then 2 ^ nat e else 1 / 2 ^ nat (- e))"

definition expo :: "real \<Rightarrow> int" where
  "expo x = (if 1 \<le> x then bitlen \<lfloor>x\<rfloor> - 1 else - bitlen (\<lceil>1 / x\<rceil> - 1))"

definition fl :: "real \<Rightarrow> real" where
  "fl x = (if x = 0 then 0
           else let a = \<bar>x\<bar>; u = pow2 (expo a - 52)
                in sgn x * (of_int (rne (a / u)) * u))"

definition fadd :: "real \<Rightarrow> real \<Rightarrow> real" where
  "fadd a b = fl (a + b)"

definition fsub :: "real \<Rightarrow> real \<Rightarrow> real" where
  "fsub a b = fl (a - b)"

definition fmul :: "real \<Rightarrow> real \<Rightarrow> real" where
  "fmul a b = fl (a * b)"

text \<open>\<open>fdiv\<close> is the division by a divisor that is not zero.\<close>

definition fdiv :: "real \<Rightarrow> real \<Rightarrow> real" where
  "fdiv a b = fl (a / b)"

text \<open>
  The one division of the detector whose divisor can be zero is written with the special
  values of the number type: a positive number divided by \<open>+0\<close> is \<open>Infinity\<close>, and
  \<open>0 / 0\<close> is \<open>NaN\<close>. Every comparison with \<open>NaN\<close> is false.
\<close>

datatype number = Finite real | PosInfinity | NegInfinity | NaN

definition numDiv :: "real \<Rightarrow> real \<Rightarrow> number" where
  "numDiv a b = (if b \<noteq> 0 then Finite (fdiv a b)
                 else if 0 < a then PosInfinity
                 else if a < 0 then NegInfinity else NaN)"

fun numGreater :: "number \<Rightarrow> real \<Rightarrow> bool" where
  "numGreater (Finite a) c = (c < a)"
| "numGreater PosInfinity c = True"
| "numGreater NegInfinity c = False"
| "numGreater NaN c = False"

fun numLess :: "number \<Rightarrow> real \<Rightarrow> bool" where
  "numLess (Finite a) c = (a < c)"
| "numLess PosInfinity c = False"
| "numLess NegInfinity c = True"
| "numLess NaN c = False"

text \<open>The decimal literals of the source, as the doubles they denote.\<close>

definition d0_299 :: real where "d0_299 = 5386305154335113 / 2 ^ 54"
definition d0_587 :: real where "d0_587 = 2643612981266481 / 2 ^ 52"
definition d0_114 :: real where "d0_114 = 8214565720323785 / 2 ^ 56"
definition d0_70 :: real where "d0_70 = 3152519739159347 / 2 ^ 52"
definition d0_6 :: real where "d0_6 = 5404319552844595 / 2 ^ 53"
definition d0_55 :: real where "d0_55 = 2476979795053773 / 2 ^ 52"
definition d0_9 :: real where "d0_9 = 8106479329266893 / 2 ^ 53"
definition d0_4 :: real where "d0_4 = 3602879701896397 / 2 ^ 53"
definition d1_3 :: real where "d1_3 = 5854679515581645 / 2 ^ 52"
definition Math_PI :: real where "Math_PI = 884279719003555 / 2 ^ 48"

section \<open>Data model\<close>

datatype shape_type = Circle | Triangle | Rectangle | Pentagon | Star

record Point =
  pt_x :: real
  pt_y :: real

record Box =
  box_x :: int
  box_y :: int
  box_width :: int
  box_height :: int

record DetectedShape =
  shapeType :: shape_type
  confidence :: real
  boundingBox :: Box
  center :: Point
  area :: nat

record DetectionResult =
  shapes :: "DetectedShape list"
  processingTime :: real
  imageWidth :: int
  imageHeight :: int

text \<open>
  \<open>ImageData\<close>: the dimensions and the RGBA bytes (a \<open>Uint8ClampedArray\<close>). Nothing in
  \<open>detectShapes\<close> checks that the three fit together.
\<close>

record ImageData =
  width :: int
  height :: int
  data :: "8 word list"

text \<open>
  The only exception \<open>detectShapes\<close> can raise by itself: the typed-array constructor
  refuses a negative length. An allocation that fails for lack of memory is outside the
  model.
\<close>

datatype error = RangeError

section \<open>Step 1: grayscale\<close>

text \<open>
  Storing a number into a \<open>Uint8ClampedArray\<close> clamps it to \<open>[0, 255]\<close> and rounds it to
  the nearest integer, ties to even; \<open>NaN\<close> is stored as 0.
\<close>

definition toUint8Clamp :: "real \<Rightarrow> nat" where
  "toUint8Clamp v = nat (rne (min 255 (max 0 v)))"

definition grayValue :: "8 word \<Rightarrow> 8 word \<Rightarrow> 8 word \<Rightarrow> real" where
  "grayValue r g b =
     fadd (fadd (fmul d0_299 (real (unat r))) (fmul d0_587 (real (unat g))))
          (fmul d0_114 (real (unat b)))"

text \<open>Reading a typed array past its end gives \<open>undefined\<close> (here \<open>None\<close>).\<close>

definition byteAt :: "8 word list \<Rightarrow> nat \<Rightarrow> 8 word option" where
  "byteAt d i = (if i < length d then Some (d ! i) else None)"

text \<open>
  The value stored for the pixel that starts at byte \<open>i\<close>. An \<open>undefined\<close> operand makes
  the sum \<open>NaN\<close>, which is stored as 0.
\<close>

definition grayStore :: "8 word list \<Rightarrow> nat \<Rightarrow> nat" where
  "grayStore d i =
     (case (byteAt d i, byteAt d (i + 1), byteAt d (i + 2)) of
        (Some r, Some g, Some b) \<Rightarrow> toUint8Clamp (grayValue r g b)
      | _ \<Rightarrow> 0)"

text \<open>
  The loop \<open>for (i = 0; i < data.length; i += 4) gray[i / 4] = ...\<close>. A store past the end
  of a typed array is ignored, as is \<open>list_update\<close> past the end of a list; \<open>i\<close> is always a
  multiple of 4.
\<close>

function grayLoop :: "8 word list \<Rightarrow> nat \<Rightarrow> nat list \<Rightarrow> nat list" where
  "grayLoop d i gray =
     (if i < length d then grayLoop d (i + 4) (gray[i div 4 := grayStore d i]) else gray)"
  by pat_completeness auto
termination
  by (relation "measure (\<lambda>(d, i, gray). length d - i)") auto

definition grayscale :: "int \<Rightarrow> int \<Rightarrow> 8 word list \<Rightarrow> nat list" where
  "grayscale w h d = grayLoop d 0 (replicate (nat (w * h)) 0)"

section \<open>Step 2: Otsu threshold\<close>

definition histogram :: "nat list \<Rightarrow> nat list" where
  "histogram gray = fold (\<lambda>g hist. hist[g := hist ! g + 1]) gray (replicate 256 0)"

definition weightedSum :: "nat list \<Rightarrow> int" where
  "weightedSum hist = fold (\<lambda>i s. s + int i * int (hist ! i)) [0..<256] 0"

text \<open>
  \<open>wB * wF * (mB - mF) ** 2\<close>: the power binds tighter than the products, which associate
  to the left. Squaring is modelled as the rounded product.
\<close>

definition betweenVar :: "int \<Rightarrow> int \<Rightarrow> int \<Rightarrow> int \<Rightarrow> real" where
  "betweenVar sumAll sumB wB wF =
     (let mB = fdiv (real_of_int sumB) (real_of_int wB);
          mF = fdiv (real_of_int (sumAll - sumB)) (real_of_int wF);
          d = fsub mB mF
      in fmul (fmul (real_of_int wB) (real_of_int wF)) (fmul d d))"

text \<open>
  The scan \<open>for (i = 0; i < 256; i++)\<close> with its \<open>continue\<close> and \<open>break\<close>; the state is
  \<open>sumB\<close>, \<open>wB\<close>, \<open>maxVar\<close> and \<open>thresh\<close>.
\<close>

function otsuLoop ::
  "nat list \<Rightarrow> int \<Rightarrow> int \<Rightarrow> nat \<Rightarrow> int \<Rightarrow> int \<Rightarrow> real \<Rightarrow> nat \<Rightarrow> nat" where
  "otsuLoop hist totalPx sumAll i sumB wB maxVar thresh =
     (if i < 256 then
        let wB' = wB + int (hist ! i) in
        if wB' = 0 then otsuLoop hist totalPx sumAll (i + 1) sumB wB' maxVar thresh
        else
          let wF = totalPx - wB' in
          if wF = 0 then thresh
          else
            let sumB' = sumB + int i * int (hist ! i);
                between = betweenVar sumAll sumB' wB' wF
            in if maxVar < between
               then otsuLoop hist totalPx sumAll (i + 1) sumB' wB' between i
               else otsuLoop hist totalPx sumAll (i + 1) sumB' wB' maxVar thresh
      else thresh)"
  by pat_completeness auto
termination
  by (relation "measure (\<lambda>(hist, totalPx, sumAll, i, sumB, wB, maxVar, thresh). 256 - i)") auto

definition otsu :: "nat list \<Rightarrow> int \<Rightarrow> nat" where
  "otsu gray totalPx =
     (let hist = histogram gray
      in otsuLoop hist totalPx (weightedSum hist) 0 0 0 0 127)"

section \<open>Step 3: binarize\<close>

definition binarize :: "nat list \<Rightarrow> nat \<Rightarrow> nat list" where
  "binarize gray thresh = map (\<lambda>g. if g < thresh then 255 else 0) gray"

section \<open>Step 4: flood fill\<close>

definition getIndex :: "int \<Rightarrow> int \<Rightarrow> int \<Rightarrow> nat" where
  "getIndex w x y = nat (y * w + x)"

text \<open>
  The state of the \<open>while\<close> loop of \<open>floodFill\<close>. The head of \<open>stack\<close> is the top of the
  JavaScript array, \<open>pixels\<close> is in the order of the pushes. \<open>visited\<close> is the array shared by
  all calls.
\<close>

record fill_state =
  stack :: "(int \<times> int) list"
  visited :: "nat list"
  pixels :: "(int \<times> int) list"
  minX :: int
  maxX :: int
  minY :: int
  maxY :: int

definition fillInit :: "nat list \<Rightarrow> int \<Rightarrow> int \<Rightarrow> fill_state" where
  "fillInit vis sx sy =
     \<lparr>stack = [(sx, sy)], visited = vis, pixels = [],
      minX = sx, maxX = sx, minY = sy, maxY = sy\<rparr>"

text \<open>One round of the loop body, for a stack that is not empty.\<close>

definition floodStep :: "int \<Rightarrow> int \<Rightarrow> nat list \<Rightarrow> fill_state \<Rightarrow> fill_state" where
  "floodStep w h binary s =
     (case stack s of
        [] \<Rightarrow> s
      | (x, y) # rest \<Rightarrow>
          if x < 0 \<or> y < 0 \<or> w \<le> x \<or> h \<le> y then s\<lparr>stack := rest\<rparr>
          else
            let idx = getIndex w x y in
            if visited s ! idx \<noteq> 0 \<or> binary ! idx = 0 then s\<lparr>stack := rest\<rparr>
            else
              \<lparr>stack = (x, y - 1) # (x, y + 1) # (x - 1, y) # (x + 1, y) # rest,
               visited = (visited s)[idx := 1],
               pixels = pixels s @ [(x, y)],
               minX = (if x < minX s then x else minX s),
               maxX = (if maxX s < x then x else maxX s),
               minY = (if y < minY s then y else minY s),
               maxY = (if maxY s < y then y else maxY s)\<rparr>)"

text \<open>\<open>while (stack.length) { ... }\<close>: \<open>None\<close> stands for a loop that never ends.\<close>

partial_function (option) floodLoop ::
  "int \<Rightarrow> int \<Rightarrow> nat list \<Rightarrow> fill_state \<Rightarrow> fill_state option" where
  "floodLoop w h binary s =
     (if stack s = [] then Some s else floodLoop w h binary (floodStep w h binary s))"

subsection \<open>Perimeter and edge points\<close>

definition neighbors :: "int \<times> int \<Rightarrow> (int \<times> int) list" where
  "neighbors p = (case p of (x, y) \<Rightarrow> [(x + 1, y), (x - 1, y), (x, y + 1), (x, y - 1)])"

definition isBorder :: "int \<Rightarrow> int \<Rightarrow> nat list \<Rightarrow> int \<times> int \<Rightarrow> bool" where
  "isBorder w h binary p =
     list_ex (\<lambda>(nx, ny). nx < 0 \<or> ny < 0 \<or> w \<le> nx \<or> h \<le> ny
                         \<or> binary ! getIndex w nx ny = 0) (neighbors p)"

definition perimeterEdges ::
  "int \<Rightarrow> int \<Rightarrow> nat list \<Rightarrow> (int \<times> int) list \<Rightarrow> nat \<times> (int \<times> int) list" where
  "perimeterEdges w h binary pxs =
     fold (\<lambda>p (perimeter, edges).
             if isBorder w h binary p then (perimeter + 1, edges @ [p])
             else (perimeter, edges)) pxs (0, [])"

subsection \<open>Corner estimation\<close>

text \<open>
  \<open>Math.hypot\<close> and \<open>Math.acos\<close> are approximations whose accuracy the language leaves to
  the implementation; they are modelled by the functions they approximate.
\<close>

definition hypot :: "real \<Rightarrow> real \<Rightarrow> real" where
  "hypot a b = sqrt (a * a + b * b)"

definition sharpTurn :: "int \<times> int \<Rightarrow> int \<times> int \<Rightarrow> int \<times> int \<Rightarrow> bool" where
  "sharpTurn p1 p2 p3 =
     (case (p1, p2, p3) of ((x1, y1), (x2, y2), (x3, y3)) \<Rightarrow>
        let v1x = x2 - x1; v1y = y2 - y1;
            v2x = x3 - x2; v2y = y3 - y2;
            dot = v1x * v2x + v1y * v2y;
            mag1 = hypot (real_of_int v1x) (real_of_int v1y);
            mag2 = hypot (real_of_int v2x) (real_of_int v2y)
        in if mag1 * mag2 = 0 then False
           else
             let cos = real_of_int dot / (mag1 * mag2);
                 angle = arccos (min 1 (max (- 1) cos))
             in d0_4 < angle \<and> angle < d1_3)"

definition sampleStep :: "nat \<Rightarrow> nat" where
  "sampleStep n = nat (max 2 \<lfloor>fdiv (real n) 50\<rfloor>)"

function cornerLoop :: "(int \<times> int) list \<Rightarrow> nat \<Rightarrow> nat \<Rightarrow> nat" where
  "cornerLoop edges i corners =
     (if i < length edges then
        let n = length edges; st = sampleStep n
        in cornerLoop edges (i + st)
             (if sharpTurn (edges ! i) (edges ! ((i + st) mod n)) (edges ! ((i + 2 * st) mod n))
              then corners + 1 else corners)
      else corners)"
  by pat_completeness auto
termination
  by (relation "measure (\<lambda>(edges, i, corners). length edges - i)")
     (auto simp: sampleStep_def)

definition countCorners :: "(int \<times> int) list \<Rightarrow> nat" where
  "countCorners edges = cornerLoop edges 0 0"

subsection \<open>Classification\<close>

definition classify :: "nat \<Rightarrow> number \<Rightarrow> real \<Rightarrow> shape_type" where
  "classify corners circularity fillRatio =
     (if corners \<le> 3 then Triangle
      else if corners \<le> 5 then
        (if numGreater circularity d0_70 then Rectangle else Pentagon)
      else if 7 < corners then
        (if fillRatio < d0_55 \<and> numLess circularity d0_6 then Star else Circle)
      else Circle)"

subsection \<open>The metrics of a filled region\<close>

definition regionArea :: "fill_state \<Rightarrow> nat" where
  "regionArea s = length (pixels s)"

definition accepted :: "int \<Rightarrow> int \<Rightarrow> fill_state \<Rightarrow> bool" where
  "accepted w h s =
     (\<not> real (regionArea s) < max 50 (fdiv (real_of_int (w * h)) 15000))"

definition regionPerimeter :: "int \<Rightarrow> int \<Rightarrow> nat list \<Rightarrow> fill_state \<Rightarrow> nat" where
  "regionPerimeter w h binary s = fst (perimeterEdges w h binary (pixels s))"

definition regionCorners :: "int \<Rightarrow> int \<Rightarrow> nat list \<Rightarrow> fill_state \<Rightarrow> nat" where
  "regionCorners w h binary s = countCorners (snd (perimeterEdges w h binary (pixels s)))"

definition circularity :: "nat \<Rightarrow> nat \<Rightarrow> number" where
  "circularity a perimeter =
     numDiv (fmul (fmul 4 Math_PI) (real a)) (real (perimeter * perimeter))"

definition regionCircularity :: "int \<Rightarrow> int \<Rightarrow> nat list \<Rightarrow> fill_state \<Rightarrow> number" where
  "regionCircularity w h binary s = circularity (regionArea s) (regionPerimeter w h binary s)"

definition regionFillRatio :: "fill_state \<Rightarrow> real" where
  "regionFillRatio s =
     fdiv (real (regionArea s))
          (real_of_int ((maxX s - minX s + 1) * (maxY s - minY s + 1)))"

text \<open>The part of \<open>floodFill\<close> after the loop: \<open>None\<close> is the \<open>null\<close> of a rejected region.\<close>

definition regionShape :: "int \<Rightarrow> int \<Rightarrow> nat list \<Rightarrow> fill_state \<Rightarrow> DetectedShape option" where
  "regionShape w h binary s =
     (if \<not> accepted w h s then None
      else Some
        \<lparr>shapeType = classify (regionCorners w h binary s) (regionCircularity w h binary s)
                       (regionFillRatio s),
         confidence = d0_9,
         boundingBox = \<lparr>box_x = minX s, box_y = minY s,
                        box_width = maxX s - minX s + 1, box_height = maxY s - minY s + 1\<rparr>,
         center = \<lparr>pt_x = fdiv (real_of_int (minX s + maxX s)) 2,
                   pt_y = fdiv (real_of_int (minY s + maxY s)) 2\<rparr>,
         area = regionArea s\<rparr>)"

definition floodFill ::
  "int \<Rightarrow> int \<Rightarrow> nat list \<Rightarrow> nat list \<Rightarrow> int \<Rightarrow> int \<Rightarrow> (DetectedShape option \<times> nat list) option" where
  "floodFill w h binary vis sx sy =
     (case floodLoop w h binary (fillInit vis sx sy) of
        None \<Rightarrow> None
      | Some s \<Rightarrow> Some (regionShape w h binary s, visited s))"

subsection \<open>The scan over the image\<close>

definition coords :: "int \<Rightarrow> int \<Rightarrow> (int \<times> int) list" where
  "coords w h = concat (map (\<lambda>y. map (\<lambda>x. (x, y)) [0..w - 1]) [0..h - 1])"

definition scanStep ::
  "int \<Rightarrow> int \<Rightarrow> nat list \<Rightarrow> int \<times> int \<Rightarrow> nat list \<times> DetectedShape list
     \<Rightarrow> (nat list \<times> DetectedShape list) option" where
  "scanStep w h binary p st =
     (case (p, st) of ((x, y), (vis, shs)) \<Rightarrow>
        let idx = getIndex w x y in
        if binary ! idx = 255 \<and> vis ! idx = 0 then
          (case floodFill w h binary vis x y of
             None \<Rightarrow> None
           | Some (None, vis') \<Rightarrow> Some (vis', shs)
           | Some (Some shape, vis') \<Rightarrow> Some (vis', shs @ [shape]))
        else Some (vis, shs))"

fun scanLoop ::
  "int \<Rightarrow> int \<Rightarrow> nat list \<Rightarrow> (int \<times> int) list \<Rightarrow> nat list \<times> DetectedShape list
     \<Rightarrow> (nat list \<times> DetectedShape list) option" where
  "scanLoop w h binary [] st = Some st"
| "scanLoop w h binary (p # ps) st =
     (case scanStep w h binary p st of
        None \<Rightarrow> None
      | Some st' \<Rightarrow> scanLoop w h binary ps st')"

section \<open>The pipeline\<close>

text \<open>
  \<open>start\<close> and \<open>finish\<close> are the two readings of \<open>performance.now()\<close>. The result is
  \<open>None\<close> when a flood fill does not end, \<open>Some (Inl e)\<close> when the call throws and
  \<open>Some (Inr r)\<close> when it returns \<open>r\<close>.
\<close>

definition detectShapes ::
  "real \<Rightarrow> real \<Rightarrow> ImageData \<Rightarrow> (error + DetectionResult) option" where
  "detectShapes start finish img =
     (let w = width img; h = height img in
      if w * h < 0 then Some (Inl RangeError)
      else
        let gray = grayscale w h (data img);
            thresh = otsu gray (w * h);
            binary = binarize gray thresh
        in case scanLoop w h binary (coords w h) (replicate (nat (w * h)) 0, []) of
             None \<Rightarrow> None
           | Some (vis, shs) \<Rightarrow>
               Some (Inr \<lparr>shapes = shs, processingTime = fsub finish start,
                          imageWidth = w, imageHeight = h\<rparr>))"

text \<open>
  The typed-array constructor also refuses a length above a limit that the language leaves
  to the implementation: at most \<open>2^53 - 1\<close>, and less where memory is short.
  \<open>detectShapes\<close> above is the call in an implementation that can create the arrays of
  \<open>W \<times> H\<close> cells; \<open>detectShapesLimited maxLength\<close> is the call in an implementation
  whose largest typed array has \<open>maxLength\<close> cells. The first allocation is the one of
  the gray buffer, before any other work.
\<close>

definition detectShapesLimited ::
  "int \<Rightarrow> real \<Rightarrow> real \<Rightarrow> ImageData \<Rightarrow> (error + DetectionResult) option" where
  "detectShapesLimited maxLength start finish img =
     (if maxLength < width img * height img then Some (Inl RangeError)
      else detectShapes start finish img)"

section \<open>Specification-side definitions\<close>

text \<open>The measure of the flood fill: the number of cells not yet visited.\<close>

definition unvisitedCount :: "nat list \<Rightarrow> nat" where
  "unvisitedCount v = length (filter (\<lambda>b. b = 0) v)"


text \<open>
  The classification table as the specification words it: bands of the corner count, with
  the constants of the source.
\<close>

definition specClassify :: "nat \<Rightarrow> number \<Rightarrow> real \<Rightarrow> shape_type" where
  "specClassify corners circ fillRatio =
     (if corners \<le> 3 then Triangle
      else if corners = 4 \<or> corners = 5 then
        (if numGreater circ d0_70 then Rectangle else Pentagon)
      else if corners = 6 \<or> corners = 7 then Circle
      else if fillRatio < d0_55 \<and> numLess circ d0_6 then Star
      else Circle)"


text \<open>
  The cells of the image, and the invariants of the flood fill. \<open>closedVisited\<close> holds
  between two calls of \<open>floodFill\<close>: a foreground neighbour of a visited cell is visited.
  \<open>fillInv\<close> is the invariant of the loop of one call that starts at \<open>(sx, sy)\<close> with
  the visited array \<open>v0\<close>.
\<close>

definition inBounds :: "int \<Rightarrow> int \<Rightarrow> int \<times> int \<Rightarrow> bool" where
  "inBounds w h p = (case p of (x, y) \<Rightarrow> 0 \<le> x \<and> x < w \<and> 0 \<le> y \<and> y < h)"

definition cellIndex :: "int \<Rightarrow> int \<times> int \<Rightarrow> nat" where
  "cellIndex w p = (case p of (x, y) \<Rightarrow> getIndex w x y)"

definition closedVisited :: "int \<Rightarrow> int \<Rightarrow> nat list \<Rightarrow> nat list \<Rightarrow> bool" where
  "closedVisited w h binary vis =
     (length vis = nat (w * h) \<and>
      (\<forall>p q. inBounds w h p \<and> inBounds w h q \<and> q \<in> set (neighbors p)
             \<and> binary ! cellIndex w q \<noteq> 0 \<and> vis ! cellIndex w p \<noteq> 0
         \<longrightarrow> vis ! cellIndex w q \<noteq> 0))"

definition regionInv :: "int \<Rightarrow> int \<Rightarrow> nat list \<Rightarrow> nat list \<Rightarrow> fill_state \<Rightarrow> bool" where
  "regionInv w h binary v0 s =
     (length (visited s) = nat (w * h) \<and>
      distinct (pixels s) \<and>
      (\<forall>p \<in> set (pixels s). inBounds w h p \<and> binary ! cellIndex w p \<noteq> 0
                               \<and> v0 ! cellIndex w p = 0))"

definition visitedInv :: "int \<Rightarrow> int \<Rightarrow> nat list \<Rightarrow> fill_state \<Rightarrow> bool" where
  "visitedInv w h v0 s =
     (\<forall>i < nat (w * h). (visited s ! i \<noteq> 0)
                           = (v0 ! i \<noteq> 0 \<or> i \<in> cellIndex w ` set (pixels s)))"

definition frontierInv :: "int \<Rightarrow> int \<Rightarrow> nat list \<Rightarrow> fill_state \<Rightarrow> bool" where
  "frontierInv w h binary s =
     (\<forall>p \<in> set (pixels s). \<forall>q \<in> set (neighbors p).
         inBounds w h q \<and> binary ! cellIndex w q \<noteq> 0
           \<longrightarrow> visited s ! cellIndex w q \<noteq> 0 \<or> q \<in> set (stack s))"

definition startInv :: "nat list \<Rightarrow> int \<Rightarrow> int \<Rightarrow> fill_state \<Rightarrow> bool" where
  "startInv v0 sx sy s =
     ((sx, sy) \<in> set (pixels s)
        \<or> stack s = [(sx, sy)] \<and> pixels s = [] \<and> visited s = v0)"

definition boxInv :: "int \<Rightarrow> int \<Rightarrow> fill_state \<Rightarrow> bool" where
  "boxInv sx sy s =
     ((\<forall>p \<in> set (pixels s). minX s \<le> fst p \<and> fst p \<le> maxX s
                               \<and> minY s \<le> snd p \<and> snd p \<le> maxY s) \<and>
      minX s \<in> insert sx (fst ` set (pixels s)) \<and>
      maxX s \<in> insert sx (fst ` set (pixels s)) \<and>
      minY s \<in> insert sy (snd ` set (pixels s)) \<and>
      maxY s \<in> insert sy (snd ` set (pixels s)))"

definition fillInv ::
  "int \<Rightarrow> int \<Rightarrow> nat list \<Rightarrow> nat list \<Rightarrow> int \<Rightarrow> int \<Rightarrow> fill_state \<Rightarrow> bool" where
  "fillInv w h binary v0 sx sy s =
     (regionInv w h binary v0 s \<and> visitedInv w h v0 s \<and> frontierInv w h binary s
      \<and> startInv v0 sx sy s \<and> boxInv sx sy s)"


text \<open>
  Otsu's method as the specification words it. \<open>weightBefore hist i\<close> and
  \<open>sumBefore hist i\<close> are the cumulative weight and weighted sum of the bins below \<open>i\<close>;
  bin \<open>i\<close> is a valid split when both classes are non-empty. \<open>exactBetween\<close> is the
  between-class variance \<open>wB \<sqdot> wF \<sqdot> (mB - mF)\<^sup>2\<close> of the split in exact arithmetic, and
  \<open>betweenAt\<close> is the same formula with every operation rounded to a double.
  \<open>bestSoFar\<close> is the invariant of the scan and \<open>otsuSpec\<close> its result.
\<close>

definition weightBefore :: "nat list \<Rightarrow> nat \<Rightarrow> int" where
  "weightBefore hist i = sum_list (map (\<lambda>j. int (hist ! j)) [0..<i])"

definition sumBefore :: "nat list \<Rightarrow> nat \<Rightarrow> int" where
  "sumBefore hist i = sum_list (map (\<lambda>j. int j * int (hist ! j)) [0..<i])"

definition validSplit :: "nat list \<Rightarrow> int \<Rightarrow> nat \<Rightarrow> bool" where
  "validSplit hist n i =
     (i < 256 \<and> 0 < weightBefore hist (Suc i) \<and> 0 < n - weightBefore hist (Suc i))"

definition exactBetween :: "nat list \<Rightarrow> int \<Rightarrow> nat \<Rightarrow> real" where
  "exactBetween hist n i =
     (let wB = real_of_int (weightBefore hist (Suc i));
          wF = real_of_int n - wB;
          sumB = real_of_int (sumBefore hist (Suc i));
          sumAll = real_of_int (sumBefore hist 256);
          mB = sumB / wB;
          mF = (sumAll - sumB) / wF
      in wB * wF * ((mB - mF) * (mB - mF)))"

definition betweenAt :: "nat list \<Rightarrow> int \<Rightarrow> nat \<Rightarrow> real" where
  "betweenAt hist n i =
     (let wB = real_of_int (weightBefore hist (Suc i));
          wF = real_of_int n - wB;
          sumB = real_of_int (sumBefore hist (Suc i));
          sumAll = real_of_int (sumBefore hist 256);
          mB = fl (sumB / wB);
          mF = fl ((sumAll - sumB) / wF);
          d = fl (mB - mF)
      in fl (fl (wB * wF) * fl (d * d)))"

definition bestSoFar :: "nat list \<Rightarrow> int \<Rightarrow> nat \<Rightarrow> real \<Rightarrow> nat \<Rightarrow> bool" where
  "bestSoFar hist n i maxVar thresh =
     (if \<exists>j < i. validSplit hist n j
      then thresh < i \<and> validSplit hist n thresh \<and> maxVar = betweenAt hist n thresh
           \<and> (\<forall>j < i. validSplit hist n j \<longrightarrow> betweenAt hist n j \<le> maxVar)
           \<and> (\<forall>j < thresh. validSplit hist n j \<longrightarrow> betweenAt hist n j < maxVar)
      else maxVar = 0 \<and> thresh = 127)"


definition otsuSpec :: "nat list \<Rightarrow> int \<Rightarrow> nat \<Rightarrow> bool" where
  "otsuSpec hist n t =
     (if \<exists>j. validSplit hist n j
      then validSplit hist n t
           \<and> (\<forall>j. validSplit hist n j \<longrightarrow> betweenAt hist n j \<le> betweenAt hist n t)
           \<and> (\<forall>j < t. validSplit hist n j \<longrightarrow> betweenAt hist n j < betweenAt hist n t)
      else t = 127)"


section \<open>Termination of the flood fill\<close>

lemma unvisitedCount_update:
  "i < length v \<Longrightarrow> v ! i = 0 \<Longrightarrow> unvisitedCount (v[i := 1]) < unvisitedCount v"
proof (induction v arbitrary: i)
  case Nil
  then show ?case by simp
next
  case (Cons a v)
  show ?case
  proof (cases i)
    case 0
    with Cons.prems show ?thesis by (simp add: unvisitedCount_def)
  next
    case (Suc j)
    with Cons.prems have "unvisitedCount (v[j := 1]) < unvisitedCount v"
      by (intro Cons.IH) simp_all
    with Suc show ?thesis by (simp add: unvisitedCount_def)
  qed
qed

lemma getIndex_less:
  assumes "0 \<le> x" "x < w" "0 \<le> y" "y < h"
  shows "getIndex w x y < nat (w * h)"
proof -
  have "y + 1 \<le> h" using assms by simp
  then have "(y + 1) * w \<le> h * w"
    using assms by (intro mult_right_mono) simp_all
  then have "y * w + x < w * h"
    using assms by (simp add: algebra_simps)
  moreover have "0 \<le> y * w + x" using assms by simp
  ultimately show ?thesis by (simp add: getIndex_def)
qed

lemma floodStep_length_visited [simp]:
  "length (visited (floodStep w h b s)) = length (visited s)"
  by (simp add: floodStep_def Let_def split: list.splits prod.splits)

lemma floodStep_decreases:
  assumes "stack s \<noteq> []" "length (visited s) = nat (w * h)"
  shows "(floodStep w h b s, s)
           \<in> measures [\<lambda>s. unvisitedCount (visited s), \<lambda>s. length (stack s)]"
proof -
  obtain x y rest where st: "stack s = (x, y) # rest"
    using assms(1) by (cases "stack s") auto
  show ?thesis
  proof (cases "x < 0 \<or> y < 0 \<or> w \<le> x \<or> h \<le> y
                 \<or> visited s ! getIndex w x y \<noteq> 0 \<or> b ! getIndex w x y = 0")
    case True
    then have "floodStep w h b s = s\<lparr>stack := rest\<rparr>"
      by (auto simp: floodStep_def st Let_def)
    then show ?thesis by (simp add: st)
  next
    case False
    then have "getIndex w x y < length (visited s)"
      using getIndex_less [of x w y h] assms(2) by simp
    with False have "unvisitedCount ((visited s)[getIndex w x y := 1])
                       < unvisitedCount (visited s)"
      by (intro unvisitedCount_update) simp_all
    with False show ?thesis by (simp add: floodStep_def st Let_def)
  qed
qed

lemma floodLoop_rule:
  assumes "I s"
    and step: "\<And>t. I t \<Longrightarrow> stack t \<noteq> [] \<Longrightarrow> I (floodStep w h b t)"
    and len: "\<And>t. I t \<Longrightarrow> length (visited t) = nat (w * h)"
  shows "\<exists>s'. floodLoop w h b s = Some s' \<and> I s' \<and> stack s' = []"
  using assms(1)
proof (induction s rule: wf_induct_rule
         [OF wf_measures [of "[\<lambda>s. unvisitedCount (visited s), \<lambda>s. length (stack s)]"]])
  case (1 s)
  show ?case
  proof (cases "stack s = []")
    case True
    with 1 show ?thesis by (subst floodLoop.simps) simp
  next
    case False
    have "(floodStep w h b s, s)
            \<in> measures [\<lambda>s. unvisitedCount (visited s), \<lambda>s. length (stack s)]"
      using False len [OF "1.prems"] by (rule floodStep_decreases)
    moreover have "I (floodStep w h b s)" using "1.prems" False by (rule step)
    ultimately obtain s' where "floodLoop w h b (floodStep w h b s) = Some s'" "I s'" "stack s' = []"
      using "1.IH" by blast
    with False show ?thesis by (subst floodLoop.simps) simp
  qed
qed

lemma floodLoop_total:
  assumes "length (visited s) = nat (w * h)"
  shows "\<exists>s'. floodLoop w h b s = Some s' \<and> length (visited s') = nat (w * h)"
  using floodLoop_rule [of "\<lambda>t. length (visited t) = nat (w * h)" s w h b] assms
  by auto

lemma floodFill_total:
  assumes "length vis = nat (w * h)"
  shows "\<exists>sh vis'. floodFill w h b vis sx sy = Some (sh, vis') \<and> length vis' = nat (w * h)"
proof -
  have "length (visited (fillInit vis sx sy)) = nat (w * h)"
    using assms by (simp add: fillInit_def)
  from floodLoop_total [OF this, of b] show ?thesis
    by (auto simp: floodFill_def)
qed

lemma scanStep_total:
  assumes "length vis = nat (w * h)"
  shows "\<exists>vis' shs'. scanStep w h b p (vis, shs) = Some (vis', shs')
           \<and> length vis' = nat (w * h)"
proof -
  obtain x y where p: "p = (x, y)" by (cases p)
  obtain sh vis' where "floodFill w h b vis x y = Some (sh, vis')" "length vis' = nat (w * h)"
    using floodFill_total [OF assms] by blast
  then show ?thesis
    using assms by (cases sh) (auto simp: scanStep_def p Let_def)
qed

lemma scanLoop_total:
  assumes "length vis = nat (w * h)"
  shows "\<exists>vis' shs'. scanLoop w h b ps (vis, shs) = Some (vis', shs')
           \<and> length vis' = nat (w * h)"
  using assms
proof (induction ps arbitrary: vis shs)
  case Nil
  then show ?case by simp
next
  case (Cons p ps)
  obtain vis1 shs1 where 1: "scanStep w h b p (vis, shs) = Some (vis1, shs1)"
    and 2: "length vis1 = nat (w * h)"
    using scanStep_total [OF Cons.prems] by blast
  from Cons.IH [OF 2, of shs1] 1 show ?case by simp
qed

lemma detectShapes_outcome:
  "(width img * height img < 0 \<and> detectShapes start finish img = Some (Inl RangeError))
   \<or> (0 \<le> width img * height img \<and>
       (\<exists>shs. detectShapes start finish img =
          Some (Inr \<lparr>shapes = shs, processingTime = fsub finish start,
                     imageWidth = width img, imageHeight = height img\<rparr>)))"
proof (cases "width img * height img < 0")
  case True
  then show ?thesis by (simp add: detectShapes_def Let_def)
next
  case False
  let ?w = "width img" and ?h = "height img"
  let ?b = "binarize (grayscale ?w ?h (data img)) (otsu (grayscale ?w ?h (data img)) (?w * ?h))"
  obtain vis' shs' where
    "scanLoop ?w ?h ?b (coords ?w ?h) (replicate (nat (?w * ?h)) 0, []) = Some (vis', shs')"
    using scanLoop_total [of "replicate (nat (?w * ?h)) 0" ?w ?h ?b "coords ?w ?h" "[]"]
    by auto
  with False show ?thesis by (simp add: detectShapes_def Let_def)
qed


lemma floodLoop_done: "stack s = [] \<Longrightarrow> floodLoop w h b s = Some s"
  by (subst floodLoop.simps) simp

lemma floodLoop_more:
  "stack s \<noteq> [] \<Longrightarrow> floodLoop w h b s = floodLoop w h b (floodStep w h b s)"
  by (subst floodLoop.simps) simp

text \<open>
  Claim C9: \<open>detectShapes\<close> terminates on every input: the flood-fill loop and the scan
  around it always finish, so the call completes (by returning a result, or by the
  \<open>RangeError\<close> of the allocation when the size is negative); it never runs forever.
\<close>

theorem detectShapes_terminates: "\<exists>r. detectShapes start finish img = Some r"
  using detectShapes_outcome [of img start finish] by auto

section \<open>Input validation\<close>

lemma grayscale_1_1_empty: "grayscale 1 1 [] = [0]"
  by code_simp

lemma otsu_single_zero: "otsu [0] 1 = 127"
  by code_simp

lemma binarize_single_zero: "binarize [0] 127 = [255]"
  by code_simp

lemma floodLoop_1_1:
  "floodLoop 1 1 [255] (fillInit [0] 0 0) =
     Some \<lparr>stack = [], visited = [1], pixels = [(0, 0)],
           minX = 0, maxX = 0, minY = 0, maxY = 0\<rparr>"
  by (simp add: floodLoop_done floodLoop_more floodStep_def fillInit_def getIndex_def)

lemma fdiv_1_15000: "fdiv 1 15000 \<le> 50"
  by code_simp

lemma not_accepted_1_1:
  "\<not> accepted 1 1 \<lparr>stack = [], visited = [1], pixels = [(0, 0)],
                    minX = 0, maxX = 0, minY = 0, maxY = 0\<rparr>"
  using fdiv_1_15000 by (simp add: accepted_def regionArea_def)

lemma fsub_0_0: "fsub 0 0 = 0"
  by code_simp

text \<open>
  Claim C1, as stated, fails: a 1\<times>1 image whose buffer is empty (length 0 instead of 4) is
  not refused. The call returns a result with an empty shape list.
\<close>

theorem detectShapes_short_buffer_returns:
  "detectShapes 0 0 \<lparr>width = 1, height = 1, data = []\<rparr> =
     Some (Inr \<lparr>shapes = [], processingTime = 0, imageWidth = 1, imageHeight = 1\<rparr>)"
  using not_accepted_1_1 floodLoop_1_1
  by (simp add: detectShapes_def grayscale_1_1_empty otsu_single_zero binarize_single_zero
        coords_def scanStep_def getIndex_def floodFill_def regionShape_def fsub_0_0)

section \<open>Classification\<close>

lemma classify_specClassify: "classify c circ fr = specClassify c circ fr"
  by (auto simp: classify_def specClassify_def)

text \<open>
  Claim C4: a region is reported exactly when it passes the area filter, and then its type
  is given by the first-match table on its corner count, circularity and fill ratio:
  at most 3 corners triangle; 4 or 5 corners rectangle when the circularity exceeds 0.70 and
  pentagon otherwise; 6 or 7 corners circle; more than 7 corners star when the fill ratio is
  below 0.55 and the circularity below 0.6, and circle otherwise.
\<close>

theorem regionShape_type:
  "map_option shapeType (regionShape w h binary s) =
     (if accepted w h s
      then Some (specClassify (regionCorners w h binary s) (regionCircularity w h binary s)
                   (regionFillRatio s))
      else None)"
  by (simp add: regionShape_def classify_specClassify)

section \<open>Properties of the rounding\<close>

lemma rne_of_int [simp]: "rne (of_int n) = n"
  by (simp add: rne_def)

lemma rne_lower: "\<lfloor>x\<rfloor> \<le> rne x"
  by (simp add: rne_def Let_def)

lemma rne_upper: "rne x \<le> \<lfloor>x\<rfloor> + 1"
  by (simp add: rne_def Let_def)

lemma rne_mono:
  assumes "x \<le> y"
  shows "rne x \<le> rne y"
proof (cases "\<lfloor>x\<rfloor> = \<lfloor>y\<rfloor>")
  case True
  with assms have "x - of_int \<lfloor>x\<rfloor> \<le> y - of_int \<lfloor>y\<rfloor>" by simp
  with True show ?thesis by (auto simp: rne_def Let_def)
next
  case False
  with assms have "\<lfloor>x\<rfloor> + 1 \<le> \<lfloor>y\<rfloor>" using floor_mono [OF assms] by linarith
  with rne_upper [of x] rne_lower [of y] show ?thesis by linarith
qed

lemma rne_close: "\<bar>of_int (rne x) - x\<bar> \<le> 1 / 2"
proof -
  have "of_int \<lfloor>x\<rfloor> \<le> x" "x < of_int \<lfloor>x\<rfloor> + 1" by linarith+
  then show ?thesis by (auto simp: rne_def Let_def abs_le_iff)
qed

lemma pow2_powr: "pow2 e = 2 powr (real_of_int e)"
proof (cases "0 \<le> e")
  case True
  then have "real_of_int e = real (nat e)" by simp
  then show ?thesis using True by (simp add: pow2_def powr_realpow del: of_nat_nat)
next
  case False
  then have "real_of_int e = - real (nat (- e))" by simp
  then show ?thesis using False
    by (simp add: pow2_def powr_minus powr_realpow field_simps del: of_nat_nat)
qed

lemma pow2_pos [simp]: "0 < pow2 e"
  by (simp add: pow2_powr)

lemma pow2_add: "pow2 (a + b) = pow2 a * pow2 b"
  by (simp add: pow2_powr powr_add)

lemma pow2_le_iff [simp]: "pow2 a \<le> pow2 b \<longleftrightarrow> a \<le> b"
  by (simp add: pow2_powr)

lemma pow2_less_iff [simp]: "pow2 a < pow2 b \<longleftrightarrow> a < b"
  by (simp add: pow2_powr)

lemma pow2_nat: "pow2 (int n) = 2 ^ n"
  by (simp add: pow2_def)

lemma pow2_nonneg [simp]: "0 \<le> pow2 e"
  using pow2_pos [of e] by linarith

lemma pow2_neq0 [simp]: "pow2 e \<noteq> 0"
  using pow2_pos [of e] by linarith

lemma pow2_shift: "pow2 (e + int n) = pow2 e * 2 ^ n"
  by (simp add: pow2_add pow2_nat)

lemma pow2_split_52: "pow2 e = pow2 (e - 52) * 2 ^ 52"
proof -
  have "pow2 e = pow2 (e - 52 + int 52)" by simp
  also have "\<dots> = pow2 (e - 52) * 2 ^ 52" by (rule pow2_shift)
  finally show ?thesis .
qed

lemma pow2_split_53: "pow2 (e + 1) = pow2 (e - 52) * 2 ^ 53"
proof -
  have "e + 1 = e - 52 + int 53" by simp
  then have "pow2 (e + 1) = pow2 (e - 52 + int 53)" by (rule arg_cong)
  also have "\<dots> = pow2 (e - 52) * 2 ^ 53" by (rule pow2_shift)
  finally show ?thesis .
qed

lemma expo_bounds:
  assumes "0 < x"
  shows "pow2 (expo x) \<le> x \<and> x < pow2 (expo x + 1)"
proof (cases "1 \<le> x")
  case True
  let ?f = "\<lfloor>x\<rfloor>"
  from True have f: "0 < ?f" by simp
  from bitlen_bounds [OF f] have b: "2 ^ nat (bitlen ?f - 1) \<le> ?f" "?f < 2 ^ nat (bitlen ?f)"
    by simp_all
  from f have b1: "1 \<le> bitlen ?f" by (simp add: bitlen_alt_def)
  have e: "expo x = bitlen ?f - 1" using True by (simp add: expo_def)
  have "real_of_int (2 ^ nat (bitlen ?f - 1)) \<le> real_of_int ?f"
    using b(1) by (simp only: of_int_le_iff)
  also have "\<dots> \<le> x" by simp
  finally have lo: "pow2 (expo x) \<le> x" using b1 by (simp add: e pow2_def)
  have "?f + 1 \<le> 2 ^ nat (bitlen ?f)" using b(2) by simp
  then have "real_of_int (?f + 1) \<le> real_of_int (2 ^ nat (bitlen ?f))"
    by (simp only: of_int_le_iff)
  moreover have "x < real_of_int (?f + 1)" by simp
  ultimately have "x < real_of_int (2 ^ nat (bitlen ?f))" by linarith
  then have hi: "x < pow2 (expo x + 1)" using b1 by (simp add: e pow2_def)
  from lo hi show ?thesis by simp
next
  case False
  let ?m = "\<lceil>1 / x\<rceil>"
  let ?k = "bitlen (?m - 1)"
  from False assms have x1: "x < 1" "1 < 1 / x" by simp_all
  then have m: "2 \<le> ?m" by (simp add: le_ceiling_iff)
  then have m1: "0 < ?m - 1" by simp
  from bitlen_bounds [OF m1] have b: "2 ^ nat (?k - 1) \<le> ?m - 1" "?m - 1 < 2 ^ nat ?k"
    by simp_all
  from m1 have k1: "1 \<le> ?k" by (simp add: bitlen_alt_def)
  have e: "expo x = - ?k" using False by (simp add: expo_def)
  have "?m \<le> 2 ^ nat ?k" using b(2) by simp
  then have "real_of_int ?m \<le> real_of_int (2 ^ nat ?k)" by (simp only: of_int_le_iff)
  moreover have "1 / x \<le> real_of_int ?m" by simp
  ultimately have "1 / x \<le> real_of_int (2 ^ nat ?k)" by linarith
  then have "1 / x \<le> 2 ^ nat ?k" by simp
  with assms have "1 / 2 ^ nat ?k \<le> x" by (simp add: field_simps)
  then have lo: "pow2 (expo x) \<le> x" using k1 by (simp add: e pow2_def)
  have "real_of_int (2 ^ nat (?k - 1)) \<le> real_of_int (?m - 1)"
    using b(1) by (simp only: of_int_le_iff)
  moreover have "real_of_int (?m - 1) < 1 / x" using ceiling_correct [of "1 / x"] by simp
  ultimately have "real_of_int (2 ^ nat (?k - 1)) < 1 / x" by linarith
  then have "2 ^ nat (?k - 1) < 1 / x" by simp
  with assms have lt: "x < 1 / 2 ^ nat (?k - 1)" by (simp add: field_simps)
  have hi: "x < pow2 (expo x + 1)"
  proof (cases "?k = 1")
    case True
    with lt show ?thesis by (simp add: e pow2_def)
  next
    case False
    with k1 have "\<not> 0 \<le> - ?k + 1" "nat (- (- ?k + 1)) = nat (?k - 1)" by simp_all
    with lt show ?thesis by (simp add: e pow2_def)
  qed
  from lo hi show ?thesis by simp
qed

lemma expo_unique:
  assumes "pow2 e \<le> x" "x < pow2 (e + 1)"
  shows "expo x = e"
proof -
  have "0 < x" using assms(1) pow2_pos [of e] by linarith
  from expo_bounds [OF this] have "pow2 (expo x) \<le> x" "x < pow2 (expo x + 1)" by simp_all
  with assms have "pow2 (expo x) < pow2 (e + 1)" "pow2 e < pow2 (expo x + 1)" by linarith+
  then show ?thesis by simp
qed

lemma expo_mono:
  assumes "0 < x" "x \<le> y"
  shows "expo x \<le> expo y"
proof -
  from expo_bounds [OF assms(1)] expo_bounds [of y] assms
  have "pow2 (expo x) < pow2 (expo y + 1)" by linarith
  then show ?thesis by simp
qed

lemma fl_pos_eq:
  "0 < x \<Longrightarrow> fl x = real_of_int (rne (x / pow2 (expo x - 52))) * pow2 (expo x - 52)"
  by (simp add: fl_def Let_def)

lemma fl_zero [simp]: "fl 0 = 0"
  by (simp add: fl_def)

lemma fl_minus: "fl (- x) = - fl x"
  by (simp add: fl_def Let_def)

lemma scaled_bounds:
  assumes "0 < x"
  shows "2 ^ 52 \<le> x / pow2 (expo x - 52)" "x / pow2 (expo x - 52) \<le> 2 ^ 53"
proof -
  have "pow2 (expo x - 52) * 2 ^ 52 \<le> x" "x < pow2 (expo x - 52) * 2 ^ 53"
    using expo_bounds [OF assms]
    by (simp_all only: pow2_split_52 [symmetric] pow2_split_53 [symmetric])
  then show "2 ^ 52 \<le> x / pow2 (expo x - 52)" "x / pow2 (expo x - 52) \<le> 2 ^ 53"
    by (simp_all add: field_simps)
qed

lemma fl_pos_bounds:
  assumes "0 < x"
  shows "pow2 (expo x) \<le> fl x" "fl x \<le> pow2 (expo x + 1)"
proof -
  let ?u = "pow2 (expo x - 52)"
  have "rne (of_int (2 ^ 52)) \<le> rne (x / ?u)"
    using scaled_bounds(1) [OF assms] by (intro rne_mono) simp
  then have "real_of_int (2 ^ 52) \<le> real_of_int (rne (x / ?u))"
    by (simp only: rne_of_int of_int_le_iff)
  then have "2 ^ 52 * ?u \<le> fl x"
    by (simp add: fl_pos_eq [OF assms])
  moreover have "pow2 (expo x) = 2 ^ 52 * ?u"
    using pow2_split_52 [of "expo x"] by (simp only: mult.commute)
  ultimately show "pow2 (expo x) \<le> fl x" by simp
  have "rne (x / ?u) \<le> rne (of_int (2 ^ 53))"
    using scaled_bounds(2) [OF assms] by (intro rne_mono) simp
  then have "real_of_int (rne (x / ?u)) \<le> real_of_int (2 ^ 53)"
    by (simp only: rne_of_int of_int_le_iff)
  then have "fl x \<le> 2 ^ 53 * ?u"
    by (simp add: fl_pos_eq [OF assms])
  moreover have "pow2 (expo x + 1) = 2 ^ 53 * ?u"
    using pow2_split_53 [of "expo x"] by (simp only: mult.commute)
  ultimately show "fl x \<le> pow2 (expo x + 1)" by simp
qed

lemma fl_pos: "0 < x \<Longrightarrow> 0 < fl x"
  using fl_pos_bounds(1) [of x] pow2_pos [of "expo x"] by linarith

lemma fl_mono_pos:
  assumes "0 < x" "x \<le> y"
  shows "fl x \<le> fl y"
proof -
  from assms have y: "0 < y" by simp
  have le: "expo x \<le> expo y" using assms by (rule expo_mono)
  show ?thesis
  proof (cases "expo x = expo y")
    case True
    let ?u = "pow2 (expo y - 52)"
    have "x / ?u \<le> y / ?u" using assms(2) by (intro divide_right_mono) simp_all
    then have "rne (x / ?u) \<le> rne (y / ?u)" by (rule rne_mono)
    then have "real_of_int (rne (x / ?u)) * ?u \<le> real_of_int (rne (y / ?u)) * ?u"
      by (simp add: mult_right_mono)
    then show ?thesis by (simp add: fl_pos_eq [OF assms(1)] fl_pos_eq [OF y] True)
  next
    case False
    with le have "expo x + 1 \<le> expo y" by simp
    then have "pow2 (expo x + 1) \<le> pow2 (expo y)" by simp
    with fl_pos_bounds(2) [OF assms(1)] fl_pos_bounds(1) [OF y] show ?thesis by linarith
  qed
qed

lemma fl_mono:
  assumes "x \<le> y"
  shows "fl x \<le> fl y"
proof -
  consider "0 < x" | "x = 0" | "x < 0" "0 < y" | "x < 0" "y = 0" | "x < 0" "y < 0"
    using assms by linarith
  then show ?thesis
  proof cases
    case 1
    then show ?thesis using assms by (rule fl_mono_pos)
  next
    case 2
    then show ?thesis using fl_pos [of y] assms by (cases "y = 0") auto
  next
    case 3
    then show ?thesis using fl_pos [of y] fl_pos [of "- x"] by (simp add: fl_minus)
  next
    case 4
    then show ?thesis using fl_pos [of "- x"] by (simp add: fl_minus)
  next
    case 5
    then have "fl (- y) \<le> fl (- x)" using assms by (intro fl_mono_pos) simp_all
    then show ?thesis by (simp add: fl_minus)
  qed
qed

lemma fl_int_pos:
  assumes "0 < n" "n < 2 ^ 53"
  shows "fl (real_of_int n) = real_of_int n"
proof -
  let ?x = "real_of_int n"
  have x: "0 < ?x" using assms(1) by simp
  have "pow2 0 \<le> ?x" using assms(1) by (simp add: pow2_def)
  with expo_bounds [OF x] have "pow2 0 < pow2 (expo ?x + 1)" by linarith
  then have e0: "0 \<le> expo ?x" by simp
  have "?x < pow2 53" using assms(2) pow2_nat [of 53] by simp
  with expo_bounds [OF x] have "pow2 (expo ?x) < pow2 53" by linarith
  then have e52: "expo ?x \<le> 52" by simp
  let ?j = "nat (52 - expo ?x)"
  have "expo ?x - 52 + int ?j = 0" using e52 by simp
  then have "pow2 (expo ?x - 52 + int ?j) = pow2 0" by (rule arg_cong)
  then have u: "pow2 (expo ?x - 52) * 2 ^ ?j = 1"
    by (simp only: pow2_shift) (simp add: pow2_def)
  then have "1 / pow2 (expo ?x - 52) = 2 ^ ?j"
    by (simp add: divide_eq_eq mult.commute)
  moreover have "?x / pow2 (expo ?x - 52) = ?x * (1 / pow2 (expo ?x - 52))"
    by simp
  ultimately have "?x / pow2 (expo ?x - 52) = ?x * 2 ^ ?j"
    by (simp only:)
  also have "\<dots> = real_of_int (n * 2 ^ ?j)" by simp
  finally have "rne (?x / pow2 (expo ?x - 52)) = n * 2 ^ ?j"
    by (simp only: rne_of_int)
  then have "fl ?x = real_of_int (n * 2 ^ ?j) * pow2 (expo ?x - 52)"
    by (simp add: fl_pos_eq [OF x])
  also have "\<dots> = ?x * (pow2 (expo ?x - 52) * 2 ^ ?j)" by simp
  finally show ?thesis by (simp only: u mult_1_right)
qed

lemma fl_int:
  assumes "\<bar>n\<bar> < 2 ^ 53"
  shows "fl (real_of_int n) = real_of_int n"
proof -
  consider "0 < n" | "n = 0" | "n < 0" by linarith
  then show ?thesis
  proof cases
    case 1
    with assms show ?thesis by (intro fl_int_pos) simp_all
  next
    case 2
    then show ?thesis by simp
  next
    case 3
    with assms have "fl (real_of_int (- n)) = real_of_int (- n)"
      by (intro fl_int_pos) simp_all
    then show ?thesis by (simp add: fl_minus)
  qed
qed

lemma fl_error:
  assumes "0 < x"
  shows "\<bar>fl x - x\<bar> \<le> pow2 (expo x - 53)"
proof -
  let ?u = "pow2 (expo x - 52)"
  have "\<bar>real_of_int (rne (x / ?u)) - x / ?u\<bar> * ?u \<le> 1 / 2 * ?u"
    using rne_close [of "x / ?u"] by (intro mult_right_mono) simp_all
  also have "\<bar>real_of_int (rne (x / ?u)) - x / ?u\<bar> * ?u = \<bar>fl x - x\<bar>"
  proof -
    have "\<bar>real_of_int (rne (x / ?u)) - x / ?u\<bar> * ?u
            = \<bar>(real_of_int (rne (x / ?u)) - x / ?u) * ?u\<bar>"
      by (simp add: abs_mult)
    also have "(real_of_int (rne (x / ?u)) - x / ?u) * ?u = fl x - x"
      by (simp add: fl_pos_eq [OF assms] algebra_simps)
    finally show ?thesis .
  qed
  finally have "\<bar>fl x - x\<bar> \<le> 1 / 2 * ?u" .
  moreover have "pow2 (expo x - 52) = pow2 (expo x - 53) * 2"
    using pow2_shift [of "expo x - 53" 1] by simp
  ultimately show ?thesis by (simp only:)
qed

section \<open>The invariant of the flood fill\<close>

lemma cellIndex_less: "inBounds w h p \<Longrightarrow> cellIndex w p < nat (w * h)"
  by (cases p) (simp add: inBounds_def cellIndex_def getIndex_less)

lemma cellIndex_inj:
  assumes "inBounds w h p" "inBounds w h q" "cellIndex w p = cellIndex w q"
  shows "p = q"
proof -
  obtain x y where p: "p = (x, y)" by (cases p)
  obtain x' y' where q: "q = (x', y')" by (cases q)
  from assms have b: "0 \<le> x" "x < w" "0 \<le> y" "0 \<le> x'" "x' < w" "0 \<le> y'"
    by (simp_all add: inBounds_def p q)
  then have "0 \<le> y * w + x" "0 \<le> y' * w + x'" by simp_all
  with assms(3) have e: "y * w + x = y' * w + x'"
    by (simp add: cellIndex_def getIndex_def p q)
  then have "(y * w + x) div w = (y' * w + x') div w" by simp
  with b have "y = y'" by simp
  with e show ?thesis by (simp add: p q)
qed

lemma neighbors_sym: "q \<in> set (neighbors p) \<Longrightarrow> p \<in> set (neighbors q)"
  by (cases p; cases q) (auto simp: neighbors_def)

lemma floodStep_cases [consumes 1, case_names skip visit]:
  assumes "stack s = (x, y) # rest"
  obtains (skip) "floodStep w h b s = s\<lparr>stack := rest\<rparr>"
      "\<not> inBounds w h (x, y) \<or> visited s ! cellIndex w (x, y) \<noteq> 0 \<or> b ! cellIndex w (x, y) = 0"
  | (visit) "inBounds w h (x, y)" "visited s ! cellIndex w (x, y) = 0" "b ! cellIndex w (x, y) \<noteq> 0"
      "floodStep w h b s =
         \<lparr>stack = (x, y - 1) # (x, y + 1) # (x - 1, y) # (x + 1, y) # rest,
          visited = (visited s)[cellIndex w (x, y) := 1],
          pixels = pixels s @ [(x, y)],
          minX = min (minX s) x, maxX = max (maxX s) x,
          minY = min (minY s) y, maxY = max (maxY s) y\<rparr>"
proof (cases "x < 0 \<or> y < 0 \<or> w \<le> x \<or> h \<le> y
                 \<or> visited s ! getIndex w x y \<noteq> 0 \<or> b ! getIndex w x y = 0")
  case True
  then have "floodStep w h b s = s\<lparr>stack := rest\<rparr>"
    by (auto simp: floodStep_def assms Let_def)
  moreover from True have "\<not> inBounds w h (x, y) \<or> visited s ! cellIndex w (x, y) \<noteq> 0
      \<or> b ! cellIndex w (x, y) = 0"
    by (auto simp: inBounds_def cellIndex_def)
  ultimately show ?thesis by (rule skip)
next
  case False
  then have "inBounds w h (x, y)" "visited s ! cellIndex w (x, y) = 0"
    "b ! cellIndex w (x, y) \<noteq> 0"
    by (auto simp: inBounds_def cellIndex_def)
  moreover from False have "floodStep w h b s =
         \<lparr>stack = (x, y - 1) # (x, y + 1) # (x - 1, y) # (x + 1, y) # rest,
          visited = (visited s)[cellIndex w (x, y) := 1],
          pixels = pixels s @ [(x, y)],
          minX = min (minX s) x, maxX = max (maxX s) x,
          minY = min (minY s) y, maxY = max (maxY s) y\<rparr>"
    by (auto simp: floodStep_def assms Let_def cellIndex_def min_def max_def)
  ultimately show ?thesis by (rule visit)
qed

lemma fillInv_init:
  assumes "length v0 = nat (w * h)"
  shows "fillInv w h b v0 sx sy (fillInit v0 sx sy)"
  using assms
  by (simp add: fillInv_def regionInv_def visitedInv_def frontierInv_def startInv_def
        boxInv_def fillInit_def)

lemma regionInv_step:
  assumes "regionInv w h b v0 s" "visitedInv w h v0 s" "stack s \<noteq> []"
  shows "regionInv w h b v0 (floodStep w h b s)"
proof -
  obtain x y rest where st: "stack s = (x, y) # rest"
    using assms(3) by (cases "stack s") auto
  from st show ?thesis
  proof (cases rule: floodStep_cases [where w = w and h = h and b = b])
    case skip
    with assms(1) show ?thesis by (simp add: regionInv_def)
  next
    case visit
    let ?c = "cellIndex w (x, y)"
    have c: "?c < nat (w * h)" using visit(1) by (rule cellIndex_less)
    with assms(2) visit(2) have "v0 ! ?c = 0" "?c \<notin> cellIndex w ` set (pixels s)"
      unfolding visitedInv_def by blast+
    then have "(x, y) \<notin> set (pixels s)" by blast
    with assms(1) visit(1,3) \<open>v0 ! ?c = 0\<close> show ?thesis
      by (simp add: regionInv_def visit(4))
  qed
qed

lemma visitedInv_step:
  assumes "visitedInv w h v0 s" "length (visited s) = nat (w * h)" "stack s \<noteq> []"
  shows "visitedInv w h v0 (floodStep w h b s)"
proof -
  obtain x y rest where st: "stack s = (x, y) # rest"
    using assms(3) by (cases "stack s") auto
  from st show ?thesis
  proof (cases rule: floodStep_cases [where w = w and h = h and b = b])
    case skip
    with assms(1) show ?thesis by (simp add: visitedInv_def)
  next
    case visit
    let ?c = "cellIndex w (x, y)"
    have c: "?c < nat (w * h)" using visit(1) by (rule cellIndex_less)
    show ?thesis
      unfolding visitedInv_def
    proof (intro allI impI)
      fix i assume i: "i < nat (w * h)"
      from assms(1) i have old: "(visited s ! i \<noteq> 0)
          = (v0 ! i \<noteq> 0 \<or> i \<in> cellIndex w ` set (pixels s))"
        unfolding visitedInv_def by blast
      show "(visited (floodStep w h b s) ! i \<noteq> 0)
          = (v0 ! i \<noteq> 0 \<or> i \<in> cellIndex w ` set (pixels (floodStep w h b s)))"
      proof (cases "i = ?c")
        case True
        then show ?thesis using c assms(2) by (simp add: visit(4))
      next
        case False
        then show ?thesis using old by (auto simp: visit(4))
      qed
    qed
  qed
qed


lemma frontierInv_step:
  assumes "frontierInv w h b s" "length (visited s) = nat (w * h)" "stack s \<noteq> []"
  shows "frontierInv w h b (floodStep w h b s)"
proof -
  obtain x y rest where st: "stack s = (x, y) # rest"
    using assms(3) by (cases "stack s") auto
  have P5: "visited s ! cellIndex w q \<noteq> 0 \<or> q \<in> set (stack s)"
    if "p \<in> set (pixels s)" "q \<in> set (neighbors p)" "inBounds w h q"
      "b ! cellIndex w q \<noteq> 0" for p q
    using assms(1) that unfolding frontierInv_def by blast
  from st show ?thesis
  proof (cases rule: floodStep_cases [where w = w and h = h and b = b])
    case skip
    have "visited s ! cellIndex w q \<noteq> 0 \<or> q \<in> set rest"
      if "p \<in> set (pixels s)" "q \<in> set (neighbors p)" "inBounds w h q"
        "b ! cellIndex w q \<noteq> 0" for p q
      using P5 [OF that] skip(2) that(3,4) st by auto
    then show ?thesis
      unfolding frontierInv_def skip(1) by simp
  next
    case visit
    let ?c = "cellIndex w (x, y)"
    let ?s' = "floodStep w h b s"
    have c: "?c < nat (w * h)" using visit(1) by (rule cellIndex_less)
    have mono: "visited ?s' ! i \<noteq> 0" if "visited s ! i \<noteq> 0" for i
      using that c assms(2) by (cases "i = ?c") (simp_all add: visit(4))
    have R5: "visited ?s' ! cellIndex w q \<noteq> 0 \<or> q \<in> set (stack ?s')"
      if "p \<in> set (pixels ?s')" "q \<in> set (neighbors p)" "inBounds w h q"
        "b ! cellIndex w q \<noteq> 0" for p q
    proof (cases "p = (x, y)")
      case True
      with that(2) have "q \<in> set (stack ?s')"
        by (auto simp: visit(4) neighbors_def)
      then show ?thesis ..
    next
      case False
      with that(1) have "p \<in> set (pixels s)" by (simp add: visit(4))
      from P5 [OF this that(2,3,4)] show ?thesis
      proof
        assume "visited s ! cellIndex w q \<noteq> 0"
        then show ?thesis using mono by blast
      next
        assume "q \<in> set (stack s)"
        then have "q = (x, y) \<or> q \<in> set rest" by (simp add: st)
        then show ?thesis
        proof
          assume "q = (x, y)"
          then have "visited ?s' ! cellIndex w q \<noteq> 0"
            using c assms(2) by (simp add: visit(4))
          then show ?thesis ..
        next
          assume "q \<in> set rest"
          then show ?thesis by (simp add: visit(4))
        qed
      qed
    qed
    then show ?thesis unfolding frontierInv_def by blast
  qed
qed

lemma startInv_step:
  assumes "startInv v0 sx sy s" "stack s \<noteq> []"
    and start: "inBounds w h (sx, sy)" "b ! cellIndex w (sx, sy) \<noteq> 0"
      "v0 ! cellIndex w (sx, sy) = 0"
  shows "startInv v0 sx sy (floodStep w h b s)"
proof -
  obtain x y rest where st: "stack s = (x, y) # rest"
    using assms(2) by (cases "stack s") auto
  from st show ?thesis
  proof (cases rule: floodStep_cases [where w = w and h = h and b = b])
    case skip
    have "(sx, sy) \<in> set (pixels s)"
      using assms(1) skip(2) start st unfolding startInv_def by auto
    then show ?thesis by (simp add: startInv_def skip(1))
  next
    case visit
    have "(sx, sy) \<in> set (pixels (floodStep w h b s))"
      using assms(1) st unfolding startInv_def by (auto simp: visit(4))
    then show ?thesis by (simp add: startInv_def)
  qed
qed

lemma boxInv_step:
  assumes "boxInv sx sy s" "stack s \<noteq> []"
  shows "boxInv sx sy (floodStep w h b s)"
proof -
  obtain x y rest where st: "stack s = (x, y) # rest"
    using assms(2) by (cases "stack s") auto
  from assms(1) have P7: "\<And>p. p \<in> set (pixels s) \<Longrightarrow> minX s \<le> fst p \<and> fst p \<le> maxX s
                               \<and> minY s \<le> snd p \<and> snd p \<le> maxY s"
    and P8: "minX s \<in> insert sx (fst ` set (pixels s))"
      "maxX s \<in> insert sx (fst ` set (pixels s))"
      "minY s \<in> insert sy (snd ` set (pixels s))"
      "maxY s \<in> insert sy (snd ` set (pixels s))"
    unfolding boxInv_def by blast+
  from st show ?thesis
  proof (cases rule: floodStep_cases [where w = w and h = h and b = b])
    case skip
    with assms(1) show ?thesis by (simp add: boxInv_def)
  next
    case visit
    let ?s' = "floodStep w h b s"
    have R7: "minX ?s' \<le> fst p \<and> fst p \<le> maxX ?s'
                \<and> minY ?s' \<le> snd p \<and> snd p \<le> maxY ?s'"
      if "p \<in> set (pixels ?s')" for p
    proof (cases "p = (x, y)")
      case True
      then show ?thesis by (simp add: visit(4))
    next
      case False
      with that have "p \<in> set (pixels s)" by (simp add: visit(4))
      from P7 [OF this] show ?thesis by (simp add: visit(4) min_def max_def)
    qed
    have R8: "minX ?s' \<in> insert sx (fst ` set (pixels ?s'))"
      "maxX ?s' \<in> insert sx (fst ` set (pixels ?s'))"
      "minY ?s' \<in> insert sy (snd ` set (pixels ?s'))"
      "maxY ?s' \<in> insert sy (snd ` set (pixels ?s'))"
      using P8 by (auto simp: visit(4) min_def max_def)
    show ?thesis unfolding boxInv_def using R7 R8 by blast
  qed
qed

lemma fillInv_step:
  assumes inv: "fillInv w h b v0 sx sy s" and ne: "stack s \<noteq> []"
    and start: "inBounds w h (sx, sy)" "b ! cellIndex w (sx, sy) \<noteq> 0"
      "v0 ! cellIndex w (sx, sy) = 0"
  shows "fillInv w h b v0 sx sy (floodStep w h b s)"
proof -
  from inv have 1: "regionInv w h b v0 s" and 2: "visitedInv w h v0 s"
    and 3: "frontierInv w h b s" and 4: "startInv v0 sx sy s" and 5: "boxInv sx sy s"
    by (simp_all add: fillInv_def)
  from 1 have len: "length (visited s) = nat (w * h)" by (simp add: regionInv_def)
  show ?thesis
    unfolding fillInv_def
    using regionInv_step [OF 1 2 ne] visitedInv_step [OF 2 len ne]
      frontierInv_step [OF 3 len ne] startInv_step [OF 4 ne start] boxInv_step [OF 5 ne]
    by blast
qed

lemma floodLoop_fillInv:
  assumes "length v0 = nat (w * h)"
    and "inBounds w h (sx, sy)" "b ! cellIndex w (sx, sy) \<noteq> 0" "v0 ! cellIndex w (sx, sy) = 0"
  shows "\<exists>s. floodLoop w h b (fillInit v0 sx sy) = Some s
            \<and> fillInv w h b v0 sx sy s \<and> stack s = []"
proof (rule floodLoop_rule)
  show "fillInv w h b v0 sx sy (fillInit v0 sx sy)"
    using assms(1) by (rule fillInv_init)
next
  fix t assume "fillInv w h b v0 sx sy t" "stack t \<noteq> []"
  then show "fillInv w h b v0 sx sy (floodStep w h b t)"
    using assms(2-4) by (rule fillInv_step)
next
  fix t assume "fillInv w h b v0 sx sy t"
  then show "length (visited t) = nat (w * h)" by (simp add: fillInv_def regionInv_def)
qed

lemma perimeterEdges_filter_aux:
  "fold (\<lambda>p (perimeter, edges).
           if isBorder w h b p then (perimeter + 1, edges @ [p]) else (perimeter, edges))
        pxs (n, es)
   = (n + length (filter (isBorder w h b) pxs), es @ filter (isBorder w h b) pxs)"
  by (induction pxs arbitrary: n es) simp_all

lemma perimeterEdges_filter:
  "perimeterEdges w h b pxs
     = (length (filter (isBorder w h b) pxs), filter (isBorder w h b) pxs)"
  by (simp add: perimeterEdges_def perimeterEdges_filter_aux)

lemma regionPerimeter_positive:
  assumes "p \<in> set (pixels s)" "isBorder w h b p"
  shows "1 \<le> regionPerimeter w h b s"
proof -
  from assms have "filter (isBorder w h b) (pixels s) \<noteq> []"
    by (auto simp: filter_empty_conv)
  then show ?thesis
    by (cases "filter (isBorder w h b) (pixels s)")
       (simp_all add: regionPerimeter_def perimeterEdges_filter)
qed

lemma not_border_neighbor:
  assumes "\<not> isBorder w h b p" "q \<in> set (neighbors p)"
  shows "inBounds w h q \<and> b ! cellIndex w q \<noteq> 0"
  using assms
  by (cases p; cases q) (auto simp: isBorder_def neighbors_def inBounds_def cellIndex_def)

lemma fill_visited_cases:
  assumes "fillInv w h b v0 sx sy s" "inBounds w h q" "visited s ! cellIndex w q \<noteq> 0"
  shows "v0 ! cellIndex w q \<noteq> 0 \<or> q \<in> set (pixels s)"
proof -
  from assms(1) have 1: "regionInv w h b v0 s" and 2: "visitedInv w h v0 s"
    by (simp_all add: fillInv_def)
  have "cellIndex w q < nat (w * h)" using assms(2) by (rule cellIndex_less)
  with 2 assms(3) have "v0 ! cellIndex w q \<noteq> 0 \<or> cellIndex w q \<in> cellIndex w ` set (pixels s)"
    unfolding visitedInv_def by blast
  then show ?thesis
  proof
    assume "cellIndex w q \<in> cellIndex w ` set (pixels s)"
    then obtain q' where q': "q' \<in> set (pixels s)" "cellIndex w q = cellIndex w q'" by blast
    with 1 have "inBounds w h q'" by (simp add: regionInv_def)
    from assms(2) this q'(2) have "q = q'" by (rule cellIndex_inj)
    with q'(1) show ?thesis by simp
  qed simp
qed

lemma fill_visited_mono:
  assumes "fillInv w h b v0 sx sy s" "inBounds w h q"
    "v0 ! cellIndex w q \<noteq> 0 \<or> q \<in> set (pixels s)"
  shows "visited s ! cellIndex w q \<noteq> 0"
proof -
  from assms(1) have 2: "visitedInv w h v0 s" by (simp add: fillInv_def)
  have "cellIndex w q < nat (w * h)" using assms(2) by (rule cellIndex_less)
  with 2 assms(3) show ?thesis unfolding visitedInv_def by blast
qed

lemma fill_frontier_done:
  assumes "fillInv w h b v0 sx sy s" "stack s = []"
    "p \<in> set (pixels s)" "q \<in> set (neighbors p)" "inBounds w h q" "b ! cellIndex w q \<noteq> 0"
  shows "visited s ! cellIndex w q \<noteq> 0"
proof -
  from assms(1) have "frontierInv w h b s" by (simp add: fillInv_def)
  with assms(3-6) have "visited s ! cellIndex w q \<noteq> 0 \<or> q \<in> set (stack s)"
    unfolding frontierInv_def by blast
  with assms(2) show ?thesis by simp
qed

lemma fill_closedVisited:
  assumes cl: "closedVisited w h b v0" and inv: "fillInv w h b v0 sx sy s"
    and fin: "stack s = []"
  shows "closedVisited w h b (visited s)"
  unfolding closedVisited_def
proof (intro conjI allI impI)
  show "length (visited s) = nat (w * h)"
    using inv by (simp add: fillInv_def regionInv_def)
next
  fix p q
  assume a: "inBounds w h p \<and> inBounds w h q \<and> q \<in> set (neighbors p)
             \<and> b ! cellIndex w q \<noteq> 0 \<and> visited s ! cellIndex w p \<noteq> 0"
  then have "v0 ! cellIndex w p \<noteq> 0 \<or> p \<in> set (pixels s)"
    using fill_visited_cases [OF inv] by blast
  then show "visited s ! cellIndex w q \<noteq> 0"
  proof
    assume "v0 ! cellIndex w p \<noteq> 0"
    with cl a have "v0 ! cellIndex w q \<noteq> 0"
      unfolding closedVisited_def by blast
    with a show ?thesis using fill_visited_mono [OF inv] by blast
  next
    assume "p \<in> set (pixels s)"
    with a show ?thesis using fill_frontier_done [OF inv fin] by blast
  qed
qed

lemma fill_has_border:
  assumes cl: "closedVisited w h b v0" and inv: "fillInv w h b v0 sx sy s"
    and fin: "stack s = []"
  shows "\<exists>p \<in> set (pixels s). isBorder w h b p"
proof -
  from inv have reg: "regionInv w h b v0 s" and st: "startInv v0 sx sy s"
    and box: "boxInv sx sy s"
    by (simp_all add: fillInv_def)
  from st fin have start: "(sx, sy) \<in> set (pixels s)"
    by (auto simp: startInv_def)
  from box have "minX s \<in> insert sx (fst ` set (pixels s))" by (simp add: boxInv_def)
  with start have "minX s \<in> fst ` set (pixels s)" by force
  then obtain y where p: "(minX s, y) \<in> set (pixels s)" by force
  let ?p = "(minX s, y)" and ?q = "(minX s - 1, y)"
  have "isBorder w h b ?p"
  proof (rule ccontr)
    assume nb: "\<not> isBorder w h b ?p"
    have qn: "?q \<in> set (neighbors ?p)" by (simp add: neighbors_def)
    from not_border_neighbor [OF nb qn]
    have q: "inBounds w h ?q" "b ! cellIndex w ?q \<noteq> 0" by simp_all
    from fill_frontier_done [OF inv fin p qn q]
    have "visited s ! cellIndex w ?q \<noteq> 0" .
    from fill_visited_cases [OF inv q(1) this] show False
    proof
      assume v0q: "v0 ! cellIndex w ?q \<noteq> 0"
      from reg p have pp: "inBounds w h ?p" "b ! cellIndex w ?p \<noteq> 0" "v0 ! cellIndex w ?p = 0"
        by (auto simp: regionInv_def)
      have "?p \<in> set (neighbors ?q)" using qn by (rule neighbors_sym)
      with cl q(1) pp(1,2) v0q have "v0 ! cellIndex w ?p \<noteq> 0"
        unfolding closedVisited_def by blast
      with pp(3) show False by simp
    next
      assume "?q \<in> set (pixels s)"
      with box have "minX s \<le> fst ?q" unfolding boxInv_def by blast
      then show False by simp
    qed
  qed
  with p show ?thesis by blast
qed

lemma closedVisited_init: "closedVisited w h b (replicate (nat (w * h)) 0)"
  unfolding closedVisited_def
proof (intro conjI allI impI)
  fix p q
  assume a: "inBounds w h p \<and> inBounds w h q \<and> q \<in> set (neighbors p)
             \<and> b ! cellIndex w q \<noteq> 0 \<and> replicate (nat (w * h)) 0 ! cellIndex w p \<noteq> 0"
  then have "cellIndex w p < nat (w * h)" by (simp add: cellIndex_less)
  with a show "replicate (nat (w * h)) 0 ! cellIndex w q \<noteq> 0" by simp
qed simp

lemma floodLoop_closed:
  assumes cl: "closedVisited w h b v0"
    and start: "inBounds w h (sx, sy)" "b ! cellIndex w (sx, sy) \<noteq> 0"
      "v0 ! cellIndex w (sx, sy) = 0"
    and run: "floodLoop w h b (fillInit v0 sx sy) = Some s"
  shows "closedVisited w h b (visited s)" and "\<exists>p \<in> set (pixels s). isBorder w h b p"
proof -
  from cl have len: "length v0 = nat (w * h)" by (simp add: closedVisited_def)
  from floodLoop_fillInv [OF len start] run
  have inv: "fillInv w h b v0 sx sy s" and fin: "stack s = []" by auto
  from cl inv fin show "closedVisited w h b (visited s)" by (rule fill_closedVisited)
  from cl inv fin show "\<exists>p \<in> set (pixels s). isBorder w h b p" by (rule fill_has_border)
qed

lemma scanStep_closed:
  assumes cl: "closedVisited w h b vis" and p: "inBounds w h p"
    and run: "scanStep w h b p (vis, shs) = Some (vis', shs')"
  shows "closedVisited w h b vis'"
proof -
  obtain x y where xy: "p = (x, y)" by (cases p)
  show ?thesis
  proof (cases "b ! getIndex w x y = 255 \<and> vis ! getIndex w x y = 0")
    case False
    with run cl show ?thesis by (auto simp: scanStep_def xy Let_def)
  next
    case True
    from cl have len: "length vis = nat (w * h)" by (simp add: closedVisited_def)
    then have "length (visited (fillInit vis x y)) = nat (w * h)" by (simp add: fillInit_def)
    from floodLoop_total [OF this, of b] obtain s
      where s: "floodLoop w h b (fillInit vis x y) = Some s" by blast
    from True have st: "b ! cellIndex w (x, y) \<noteq> 0" "vis ! cellIndex w (x, y) = 0"
      by (simp_all add: cellIndex_def)
    from p have "inBounds w h (x, y)" by (simp add: xy)
    from floodLoop_closed(1) [OF cl this st s] have "closedVisited w h b (visited s)" .
    moreover from run True s have "vis' = visited s"
      by (auto simp: scanStep_def xy Let_def floodFill_def split: option.splits)
    ultimately show ?thesis by simp
  qed
qed

lemma scanLoop_closed:
  assumes "closedVisited w h b vis" "\<forall>p \<in> set ps. inBounds w h p"
    and "scanLoop w h b ps (vis, shs) = Some (vis', shs')"
  shows "closedVisited w h b vis'"
  using assms
proof (induction ps arbitrary: vis shs)
  case Nil
  then show ?case by simp
next
  case (Cons p ps)
  from Cons.prems(3) obtain vis1 shs1
    where 1: "scanStep w h b p (vis, shs) = Some (vis1, shs1)"
      and 2: "scanLoop w h b ps (vis1, shs1) = Some (vis', shs')"
    by (auto split: option.splits)
  have "inBounds w h p" using Cons.prems(2) by simp
  with Cons.prems(1) have "closedVisited w h b vis1"
    using 1 by (rule scanStep_closed)
  moreover have "\<forall>p \<in> set ps. inBounds w h p" using Cons.prems(2) by simp
  ultimately show ?case using 2 by (rule Cons.IH)
qed

lemma coords_inBounds: "p \<in> set (coords w h) \<Longrightarrow> inBounds w h p"
  by (auto simp: coords_def inBounds_def)

lemma inBounds_coords:
  assumes "inBounds w h p"
  shows "p \<in> set (coords w h)"
proof -
  obtain x y where p: "p = (x, y)" by (cases p)
  from assms have "y \<in> {0..h - 1}" "x \<in> {0..w - 1}"
    by (simp_all add: inBounds_def p)
  then have "(x, y) \<in> (\<Union>y \<in> {0..h - 1}. (\<lambda>x. (x, y)) ` {0..w - 1})" by blast
  then show ?thesis by (simp add: coords_def p)
qed

lemma circularity_finite:
  "1 \<le> p \<Longrightarrow> \<exists>c. circularity a p = Finite c"
  by (simp add: circularity_def numDiv_def)


text \<open>
  Claim C10: whenever the scan of \<open>detectShapes\<close> (after any number \<open>k\<close> of cells) starts
  a flood fill, the region it collects contains a border pixel, a pixel with a neighbour
  outside the image or in the background. So the perimeter of every accepted region is at
  least 1, and its circularity is a finite number: the division never has a zero divisor.
\<close>

theorem accepted_region_has_border:
  assumes scan: "scanLoop w h binary (take k (coords w h)) (replicate (nat (w * h)) 0, [])
                   = Some (vis, shs)"
    and k: "k < length (coords w h)" "coords w h ! k = (sx, sy)"
    and cell: "binary ! getIndex w sx sy = 255" "vis ! getIndex w sx sy = 0"
    and run: "floodLoop w h binary (fillInit vis sx sy) = Some s"
    and acc: "accepted w h s"
  shows "(\<exists>p \<in> set (pixels s). isBorder w h binary p)
         \<and> 1 \<le> regionPerimeter w h binary s
         \<and> (\<exists>c. regionCircularity w h binary s = Finite c)"
proof -
  have "\<forall>p \<in> set (take k (coords w h)). inBounds w h p"
    using coords_inBounds in_set_takeD by fast
  with closedVisited_init have cl: "closedVisited w h binary vis"
    using scan by (rule scanLoop_closed)
  from k have "(sx, sy) \<in> set (coords w h)"
    using nth_mem [of k "coords w h"] by simp
  then have inb: "inBounds w h (sx, sy)" by (rule coords_inBounds)
  from cell have st: "binary ! cellIndex w (sx, sy) \<noteq> 0" "vis ! cellIndex w (sx, sy) = 0"
    by (simp_all add: cellIndex_def)
  from floodLoop_closed(2) [OF cl inb st run]
  obtain p where p: "p \<in> set (pixels s)" "isBorder w h binary p" by blast
  then have per: "1 \<le> regionPerimeter w h binary s" by (rule regionPerimeter_positive)
  then have "\<exists>c. regionCircularity w h binary s = Finite c"
    unfolding regionCircularity_def by (rule circularity_finite)
  with p per show ?thesis by blast
qed

section \<open>Images of one colour\<close>

lemma fill_reaches_all:
  assumes fg: "\<forall>p. inBounds w h p \<longrightarrow> b ! cellIndex w p \<noteq> 0"
    and inv: "fillInv w h b (replicate (nat (w * h)) 0) 0 0 s" and fin: "stack s = []"
    and start: "inBounds w h (0, 0)"
  shows "inBounds w h (x, y) \<Longrightarrow> (x, y) \<in> set (pixels s)"
proof (induction k \<equiv> "nat (x + y)" arbitrary: x y)
  case 0
  then have "x = 0" "y = 0" by (simp_all add: inBounds_def)
  moreover from inv fin have "(0, 0) \<in> set (pixels s)"
    by (auto simp: fillInv_def startInv_def)
  ultimately show ?case by simp
next
  case (Suc k)
  from Suc.prems have b: "0 \<le> x" "x < w" "0 \<le> y" "y < h" by (simp_all add: inBounds_def)
  from Suc.hyps(2) b have "0 < x \<or> 0 < y" by auto
  then obtain p where p: "inBounds w h p" "k = nat (fst p + snd p)"
    "(x, y) \<in> set (neighbors p)"
  proof
    assume "0 < x"
    with b Suc.hyps(2) have "inBounds w h (x - 1, y)" "k = nat (fst (x - 1, y) + snd (x - 1, y))"
      "(x, y) \<in> set (neighbors (x - 1, y))"
      by (auto simp: inBounds_def neighbors_def)
    then show ?thesis by (rule that)
  next
    assume "0 < y"
    with b Suc.hyps(2) have "inBounds w h (x, y - 1)" "k = nat (fst (x, y - 1) + snd (x, y - 1))"
      "(x, y) \<in> set (neighbors (x, y - 1))"
      by (auto simp: inBounds_def neighbors_def)
    then show ?thesis by (rule that)
  qed
  from Suc.hyps(1) [of "fst p" "snd p"] p(1,2) have "p \<in> set (pixels s)" by simp
  moreover from fg Suc.prems have "b ! cellIndex w (x, y) \<noteq> 0" by blast
  ultimately have "visited s ! cellIndex w (x, y) \<noteq> 0"
    using fill_frontier_done [OF inv fin _ p(3) Suc.prems] by blast
  from fill_visited_cases [OF inv Suc.prems this] show ?case
    using cellIndex_less [OF Suc.prems] by simp
qed

lemma inBounds_set: "{p. inBounds w h p} = {0..<w} \<times> {0..<h}"
  by (auto simp: inBounds_def)

lemma card_inBounds: "0 \<le> w \<Longrightarrow> card {p. inBounds w h p} = nat (w * h)"
  by (simp add: inBounds_set card_cartesian_product nat_mult_distrib)

lemma fill_all_foreground:
  assumes pos: "0 < w" "0 < h"
    and fg: "\<forall>p. inBounds w h p \<longrightarrow> b ! cellIndex w p \<noteq> 0"
    and inv: "fillInv w h b (replicate (nat (w * h)) 0) 0 0 s" and fin: "stack s = []"
  shows "set (pixels s) = {p. inBounds w h p}"
    and "regionArea s = nat (w * h)"
    and "minX s = 0" and "maxX s = w - 1" and "minY s = 0" and "maxY s = h - 1"
proof -
  from pos have start: "inBounds w h (0, 0)" by (simp add: inBounds_def)
  from inv have reg: "regionInv w h b (replicate (nat (w * h)) 0) s" and box: "boxInv 0 0 s"
    by (simp_all add: fillInv_def)
  have sub: "inBounds w h p" if "p \<in> set (pixels s)" for p
    using reg that by (simp add: regionInv_def)
  have sup: "p \<in> set (pixels s)" if "inBounds w h p" for p
    using fill_reaches_all [OF fg inv fin start, of "fst p" "snd p"] that by simp
  from sub sup show eq: "set (pixels s) = {p. inBounds w h p}" by blast
  from reg have "distinct (pixels s)" by (simp add: regionInv_def)
  then have "length (pixels s) = card (set (pixels s))" by (simp add: distinct_card)
  with eq pos show "regionArea s = nat (w * h)"
    by (simp add: regionArea_def card_inBounds)
  from box have bnd: "\<And>p. p \<in> set (pixels s) \<Longrightarrow> minX s \<le> fst p \<and> fst p \<le> maxX s
                               \<and> minY s \<le> snd p \<and> snd p \<le> maxY s"
    and att: "minX s \<in> insert 0 (fst ` set (pixels s))"
      "maxX s \<in> insert 0 (fst ` set (pixels s))"
      "minY s \<in> insert 0 (snd ` set (pixels s))"
      "maxY s \<in> insert 0 (snd ` set (pixels s))"
    unfolding boxInv_def by blast+
  have "(0, 0) \<in> set (pixels s)" using sup start by blast
  from bnd [OF this] have lo: "minX s \<le> 0" "minY s \<le> 0" by simp_all
  have "(w - 1, h - 1) \<in> set (pixels s)" using sup pos by (simp add: inBounds_def)
  from bnd [OF this] have hi: "w - 1 \<le> maxX s" "h - 1 \<le> maxY s" by simp_all
  have rng: "0 \<le> fst p \<and> fst p \<le> w - 1 \<and> 0 \<le> snd p \<and> snd p \<le> h - 1"
    if "p \<in> set (pixels s)" for p
    using sub [OF that] by (cases p) (simp add: inBounds_def)
  from att(1) rng lo(1) show "minX s = 0" by force
  from att(2) rng hi(1) pos show "maxX s = w - 1" by force
  from att(3) rng lo(2) show "minY s = 0" by force
  from att(4) rng hi(2) pos show "maxY s = h - 1" by force
qed

lemma scanLoop_all_visited:
  "\<forall>p \<in> set ps. vis ! cellIndex w p \<noteq> 0 \<Longrightarrow> scanLoop w h b ps (vis, shs) = Some (vis, shs)"
  by (induction ps) (auto simp: scanStep_def cellIndex_def Let_def)

lemma scanLoop_no_foreground:
  "\<forall>p \<in> set ps. b ! cellIndex w p \<noteq> 255 \<Longrightarrow> scanLoop w h b ps st = Some st"
  by (induction ps) (auto simp: scanStep_def cellIndex_def Let_def split: prod.splits)

lemma coords_Cons:
  assumes "0 < w" "0 < h"
  shows "\<exists>ps. coords w h = (0, 0) # ps \<and> set ps \<subseteq> {p. inBounds w h p}"
proof -
  from assms have "[0..h - 1] = 0 # [1..h - 1]" "[0..w - 1] = 0 # [1..w - 1]"
    by (simp_all add: upto_rec1)
  then have "coords w h = (0, 0) # tl (coords w h)" by (simp add: coords_def)
  moreover have "set (tl (coords w h)) \<subseteq> {p. inBounds w h p}"
    using coords_inBounds [of _ w h] list.set_sel(2) [of "coords w h"] calculation by fastforce
  ultimately show ?thesis by blast
qed

lemma scan_all_foreground:
  assumes pos: "0 < w" "0 < h"
    and fg: "\<forall>p. inBounds w h p \<longrightarrow> b ! cellIndex w p = 255"
  shows "\<exists>s. floodLoop w h b (fillInit (replicate (nat (w * h)) 0) 0 0) = Some s
           \<and> regionArea s = nat (w * h)
           \<and> minX s = 0 \<and> maxX s = w - 1 \<and> minY s = 0 \<and> maxY s = h - 1
           \<and> scanLoop w h b (coords w h) (replicate (nat (w * h)) 0, [])
               = Some (visited s, case regionShape w h b s of None \<Rightarrow> [] | Some sh \<Rightarrow> [sh])"
proof -
  let ?v0 = "replicate (nat (w * h)) (0 :: nat)"
  from pos have start: "inBounds w h (0, 0)" by (simp add: inBounds_def)
  from fg have fg': "\<forall>p. inBounds w h p \<longrightarrow> b ! cellIndex w p \<noteq> 0" by simp
  have v00: "?v0 ! cellIndex w (0, 0) = 0"
    using cellIndex_less [OF start] by simp
  from floodLoop_fillInv [of ?v0 w h 0 0 b] start fg' v00
  obtain s where s: "floodLoop w h b (fillInit ?v0 0 0) = Some s"
    and inv: "fillInv w h b ?v0 0 0 s" and fin: "stack s = []"
    by auto
  note all = fill_all_foreground [OF pos fg' inv fin]
  obtain ps where ps: "coords w h = (0, 0) # ps" "set ps \<subseteq> {p. inBounds w h p}"
    using coords_Cons [OF pos] by blast
  have vis: "\<forall>p \<in> set ps. visited s ! cellIndex w p \<noteq> 0"
  proof
    fix p assume "p \<in> set ps"
    with ps(2) have p: "inBounds w h p" by blast
    with all(1) have "p \<in> set (pixels s)" by simp
    with fill_visited_mono [OF inv p] show "visited s ! cellIndex w p \<noteq> 0" by blast
  qed
  have b00: "b ! getIndex w 0 0 = 255" using fg start by (simp add: cellIndex_def)
  have v00': "?v0 ! getIndex w 0 0 = 0" using v00 by (simp add: cellIndex_def)
  have "scanStep w h b (0, 0) (?v0, [])
          = Some (visited s, case regionShape w h b s of None \<Rightarrow> [] | Some sh \<Rightarrow> [sh])"
    using b00 v00' s
    by (simp add: scanStep_def floodFill_def split: option.splits)
  then have "scanLoop w h b (coords w h) (?v0, [])
          = Some (visited s, case regionShape w h b s of None \<Rightarrow> [] | Some sh \<Rightarrow> [sh])"
    using scanLoop_all_visited [OF vis] by (simp add: ps(1))
  with s all(2-6) show ?thesis by blast
qed

declare grayLoop.simps [simp del]
declare otsuLoop.simps [simp del]

lemma grayLoop_length [simp]: "length (grayLoop d i gray) = length gray"
proof (induction d i gray rule: grayLoop.induct)
  case (1 d i gray)
  then show ?case by (subst grayLoop.simps) simp
qed

lemma grayLoop_nth:
  assumes "4 dvd i" "k < length gray"
  shows "grayLoop d i gray ! k
           = (if i \<le> 4 * k \<and> 4 * k < length d then grayStore d (4 * k) else gray ! k)"
  using assms
proof (induction d i gray rule: grayLoop.induct)
  case (1 d i gray)
  show ?case
  proof (cases "i < length d")
    case False
    then show ?thesis by (subst grayLoop.simps) simp
  next
    case True
    from "1.prems"(1) obtain j where j: "i = 4 * j" by (auto elim: dvdE)
    have "4 dvd i + 4" using "1.prems"(1) by simp
    with "1.IH" [OF True] "1.prems"(2)
    have IH: "grayLoop d (i + 4) (gray[i div 4 := grayStore d i]) ! k
           = (if i + 4 \<le> 4 * k \<and> 4 * k < length d then grayStore d (4 * k)
              else gray[i div 4 := grayStore d i] ! k)"
      by simp
    have step: "grayLoop d i gray = grayLoop d (i + 4) (gray[i div 4 := grayStore d i])"
      using True by (subst grayLoop.simps) simp
    show ?thesis
    proof (cases "k = j")
      case True
      with IH \<open>i < length d\<close> "1.prems"(2) show ?thesis
        unfolding step by (simp add: j)
    next
      case False
      then have "(i + 4 \<le> 4 * k) = (i \<le> 4 * k)" by (auto simp: j)
      with IH False show ?thesis
        unfolding step by (simp add: j)
    qed
  qed
qed

lemma grayscale_length [simp]: "length (grayscale w h d) = nat (w * h)"
  by (simp add: grayscale_def)

lemma grayscale_nth:
  assumes "k < nat (w * h)"
  shows "grayscale w h d ! k = (if 4 * k < length d then grayStore d (4 * k) else 0)"
  using assms grayLoop_nth [of 0 k "replicate (nat (w * h)) 0" d]
  by (simp add: grayscale_def)

lemma grayStore_pixel:
  assumes "4 * k + 3 < length d"
  shows "grayStore d (4 * k)
           = toUint8Clamp (grayValue (d ! (4 * k)) (d ! (4 * k + 1)) (d ! (4 * k + 2)))"
  using assms by (simp add: grayStore_def byteAt_def)

lemma grayscale_pixel:
  assumes "length d = 4 * nat (w * h)" "k < nat (w * h)"
  shows "grayscale w h d ! k
           = toUint8Clamp (grayValue (d ! (4 * k)) (d ! (4 * k + 1)) (d ! (4 * k + 2)))"
proof -
  from assms have "4 * k + 3 < length d" by simp
  then show ?thesis using grayscale_nth [OF assms(2), of d] by (simp add: grayStore_pixel)
qed

lemma grayscale_uniform:
  assumes "length d = 4 * nat (w * h)"
    and "\<forall>k < nat (w * h). d ! (4 * k) = r \<and> d ! (4 * k + 1) = g \<and> d ! (4 * k + 2) = b"
  shows "grayscale w h d = replicate (nat (w * h)) (toUint8Clamp (grayValue r g b))"
proof (rule nth_equalityI)
  show "length (grayscale w h d) = length (replicate (nat (w * h)) (toUint8Clamp (grayValue r g b)))"
    by simp
next
  fix k assume "k < length (grayscale w h d)"
  then have k: "k < nat (w * h)" by simp
  with assms(2) have "d ! (4 * k) = r" "d ! (4 * k + 1) = g" "d ! (4 * k + 2) = b" by simp_all
  with grayscale_pixel [OF assms(1) k] k
  show "grayscale w h d ! k = replicate (nat (w * h)) (toUint8Clamp (grayValue r g b)) ! k"
    by simp
qed

lemma toUint8Clamp_le: "toUint8Clamp v \<le> 255"
proof -
  have "rne (min 255 (max 0 v)) \<le> rne (of_int 255)"
    by (intro rne_mono) simp
  then have "rne (min 255 (max 0 v)) \<le> 255" by (simp only: rne_of_int)
  then show ?thesis by (simp add: toUint8Clamp_def)
qed

lemma histogram_fold_replicate:
  "g < length hist \<Longrightarrow>
   fold (\<lambda>g hist. hist[g := hist ! g + 1]) (replicate n g) hist = hist[g := hist ! g + n]"
proof (induction n arbitrary: hist)
  case 0
  then show ?case by simp
next
  case (Suc n)
  then show ?case by (simp add: list_update_overwrite)
qed

lemma histogram_replicate:
  assumes "g < 256"
  shows "histogram (replicate n g) = (replicate 256 0)[g := n]"
proof -
  have "g < length (replicate 256 (0 :: nat))" using assms by simp
  from histogram_fold_replicate [OF this, of n] show ?thesis
    unfolding histogram_def using assms by (simp del: fold_replicate)
qed

lemma otsuLoop_single_bin:
  assumes "\<forall>j. i \<le> j \<and> j < 256 \<and> hist ! j \<noteq> 0 \<longrightarrow> int (hist ! j) = totalPx"
  shows "otsuLoop hist totalPx sumAll i sumB 0 maxVar thresh = thresh"
  using assms
proof (induction "256 - i" arbitrary: i)
  case 0
  then show ?case by (subst otsuLoop.simps) simp
next
  case (Suc n)
  then have i: "i < 256" by simp
  show ?case
  proof (cases "hist ! i = 0")
    case True
    have "otsuLoop hist totalPx sumAll (i + 1) sumB 0 maxVar thresh = thresh"
      using Suc.hyps(2) Suc.prems by (intro Suc.hyps(1)) auto
    with True i show ?thesis by (subst otsuLoop.simps) simp
  next
    case False
    with Suc.prems i have "int (hist ! i) = totalPx" by blast
    with False i show ?thesis by (subst otsuLoop.simps) (simp add: Let_def)
  qed
qed

lemma otsu_uniform:
  assumes "g < 256"
  shows "otsu (replicate n g) (int n) = 127"
proof -
  have "\<forall>j. 0 \<le> j \<and> j < 256 \<and> (replicate 256 0)[g := n] ! j \<noteq> 0
           \<longrightarrow> int ((replicate 256 0)[g := n] ! j) = int n"
    using assms by (auto simp: nth_list_update)
  then show ?thesis
    by (simp add: otsu_def histogram_replicate [OF assms] otsuLoop_single_bin)
qed

lemma binarize_replicate:
  "binarize (replicate n g) t = replicate n (if g < t then 255 else 0)"
  by (simp add: binarize_def)

lemma fdiv_15000_le:
  assumes "1 \<le> n"
  shows "fdiv (real_of_int n) 15000 \<le> real_of_int n"
proof -
  let ?x = "real_of_int n" and ?q = "real_of_int n / 15000"
  have x: "0 < ?x" and q: "0 < ?q" using assms by simp_all
  have "expo ?q < expo ?x"
  proof (rule ccontr)
    assume "\<not> expo ?q < expo ?x"
    then have "pow2 (expo ?x) \<le> pow2 (expo ?q)" by simp
    also have "\<dots> \<le> ?q" using expo_bounds [OF q] by simp
    finally have "pow2 (expo ?x) \<le> ?q" .
    moreover have "?x < pow2 (expo ?x) * 2"
      using expo_bounds [OF x] pow2_shift [of "expo ?x" 1] by simp
    ultimately have "?x < ?q * 2" by linarith
    with x show False by simp
  qed
  then have "pow2 (expo ?q + 1) \<le> pow2 (expo ?x)" by simp
  with fl_pos_bounds(2) [OF q] expo_bounds [OF x] show ?thesis
    unfolding fdiv_def by linarith
qed

lemma accepted_iff:
  assumes "regionArea s = nat (w * h)" "0 < w" "0 < h"
  shows "accepted w h s \<longleftrightarrow> 50 \<le> w * h"
proof -
  from assms(2,3) have pos: "1 \<le> w * h" by (simp add: pos_add_strict less_1_mult mult_pos_pos int_one_le_iff_zero_less)
  then have "fdiv (real_of_int (w * h)) 15000 \<le> real_of_int (w * h)"
    by (rule fdiv_15000_le)
  moreover have "real (nat (w * h)) = real_of_int (w * h)" using pos by simp
  ultimately show ?thesis
    using pos by (auto simp: accepted_def assms(1) simp del: of_int_mult)
qed

lemma coords_empty: "w \<le> 0 \<or> h \<le> 0 \<Longrightarrow> coords w h = []"
  by (auto simp: coords_def)

lemma scan_background:
  "scanLoop w h (replicate (nat (w * h)) (0 :: nat)) (coords w h) st = Some st"
proof (rule scanLoop_no_foreground, rule ballI)
  fix p assume "p \<in> set (coords w h)"
  then have "cellIndex w p < nat (w * h)" by (intro cellIndex_less coords_inBounds)
  then show "replicate (nat (w * h)) (0 :: nat) ! cellIndex w p \<noteq> 255" by simp
qed

lemma scan_foreground:
  assumes "0 \<le> w" "0 \<le> h"
  shows "\<exists>vis shs. scanLoop w h (replicate (nat (w * h)) 255) (coords w h)
                      (replicate (nat (w * h)) 0, []) = Some (vis, shs)
           \<and> (w * h < 50 \<longrightarrow> shs = [])
           \<and> (50 \<le> w * h \<longrightarrow>
                (\<exists>sh. shs = [sh] \<and> area sh = nat (w * h)
                   \<and> boundingBox sh = \<lparr>box_x = 0, box_y = 0, box_width = w, box_height = h\<rparr>))"
proof (cases "0 < w \<and> 0 < h")
  case False
  with assms have z: "w = 0 \<or> h = 0" by auto
  then have "coords w h = []" by (intro coords_empty) auto
  moreover from z have "w * h = 0" by auto
  ultimately show ?thesis by (simp del: mult_eq_0_iff)
next
  case True
  then have pos: "0 < w" "0 < h" by simp_all
  let ?b = "replicate (nat (w * h)) (255 :: nat)"
  have fg: "\<forall>p. inBounds w h p \<longrightarrow> ?b ! cellIndex w p = 255"
    by (simp add: cellIndex_less)
  from scan_all_foreground [OF pos fg] obtain s where
    ar: "regionArea s = nat (w * h)"
    and box: "minX s = 0" "maxX s = w - 1" "minY s = 0" "maxY s = h - 1"
    and sc: "scanLoop w h ?b (coords w h) (replicate (nat (w * h)) 0, [])
               = Some (visited s, case regionShape w h ?b s of None \<Rightarrow> [] | Some sh \<Rightarrow> [sh])"
    by blast
  have acc: "accepted w h s \<longleftrightarrow> 50 \<le> w * h" using ar pos by (rule accepted_iff)
  show ?thesis
  proof (cases "50 \<le> w * h")
    case True
    with acc have "accepted w h s" by simp
    then obtain sh where sh: "regionShape w h ?b s = Some sh" "area sh = nat (w * h)"
      "boundingBox sh = \<lparr>box_x = 0, box_y = 0, box_width = w, box_height = h\<rparr>"
      by (simp add: regionShape_def ar box)
    with sc True show ?thesis by simp
  next
    case False
    with acc have "regionShape w h ?b s = None" by (simp add: regionShape_def)
    with sc False show ?thesis by simp
  qed
qed

lemma detectShapes_uniform:
  assumes dims: "0 \<le> w" "0 \<le> h" and len: "length d = 4 * nat (w * h)"
    and uni: "\<forall>k < nat (w * h). d ! (4 * k) = r \<and> d ! (4 * k + 1) = g \<and> d ! (4 * k + 2) = b"
  shows "\<exists>shs. detectShapes start finish \<lparr>width = w, height = h, data = d\<rparr>
             = Some (Inr \<lparr>shapes = shs, processingTime = fsub finish start,
                        imageWidth = w, imageHeight = h\<rparr>)
           \<and> (127 \<le> toUint8Clamp (grayValue r g b) \<or> w * h < 50 \<longrightarrow> shs = [])
           \<and> (toUint8Clamp (grayValue r g b) < 127 \<and> 50 \<le> w * h \<longrightarrow>
                (\<exists>sh. shs = [sh] \<and> area sh = nat (w * h)
                   \<and> boundingBox sh = \<lparr>box_x = 0, box_y = 0, box_width = w, box_height = h\<rparr>))"
proof -
  let ?gv = "toUint8Clamp (grayValue r g b)"
  let ?n = "nat (w * h)"
  from dims have nn: "0 \<le> w * h" by simp
  then have tot: "w * h = int ?n" by simp
  have gray: "grayscale w h d = replicate ?n ?gv" using len uni by (rule grayscale_uniform)
  have "?gv < 256" using toUint8Clamp_le [of "grayValue r g b"] by simp
  then have "otsu (replicate ?n ?gv) (int ?n) = 127" by (rule otsu_uniform)
  then have th: "otsu (grayscale w h d) (w * h) = 127" using gray tot by simp
  have bin: "binarize (grayscale w h d) 127 = replicate ?n (if ?gv < 127 then 255 else 0)"
    by (simp add: gray binarize_replicate)
  show ?thesis
  proof (cases "?gv < 127")
    case False
    then have "scanLoop w h (binarize (grayscale w h d) 127) (coords w h) (replicate ?n 0, [])
                 = Some (replicate ?n 0, [])"
      by (simp add: bin scan_background)
    with False nn show ?thesis by (simp add: detectShapes_def Let_def th)
  next
    case True
    from scan_foreground [OF dims] obtain vis shs where
      "scanLoop w h (replicate ?n 255) (coords w h) (replicate ?n 0, []) = Some (vis, shs)"
      "w * h < 50 \<longrightarrow> shs = []"
      "50 \<le> w * h \<longrightarrow>
         (\<exists>sh. shs = [sh] \<and> area sh = ?n
            \<and> boundingBox sh = \<lparr>box_x = 0, box_y = 0, box_width = w, box_height = h\<rparr>)"
      by blast
    with True nn show ?thesis by (simp add: detectShapes_def Let_def th bin)
  qed
qed

lemma fdiv_50_15000: "fdiv 50 15000 \<le> 50"
  by code_simp

theorem accepted_region_has_border_witness:
  "\<exists>s. floodLoop 10 5 (replicate 50 255) (fillInit (replicate 50 0) 0 0) = Some s
       \<and> accepted 10 5 s
       \<and> 1 \<le> regionPerimeter 10 5 (replicate 50 255) s"
proof -
  have fg: "\<forall>p. inBounds 10 5 p \<longrightarrow> replicate (nat (10 * 5)) (255 :: nat) ! cellIndex 10 p = 255"
  proof (intro allI impI)
    fix p :: "int \<times> int"
    assume "inBounds 10 5 p"
    from cellIndex_less [OF this]
    show "replicate (nat (10 * 5)) (255 :: nat) ! cellIndex 10 p = 255" by simp
  qed
  from scan_all_foreground [of 10 5 "replicate (nat (10 * 5)) 255", OF _ _ fg]
  obtain s where s: "floodLoop 10 5 (replicate 50 255) (fillInit (replicate 50 0) 0 0) = Some s"
    and ar: "regionArea s = 50"
    by auto
  have acc: "accepted 10 5 s"
    using fdiv_50_15000 by (simp add: accepted_def ar)
  obtain ps where ps: "coords 10 5 = (0, 0) # ps"
    using coords_Cons [of 10 5] by auto
  have "1 \<le> regionPerimeter 10 5 (replicate 50 255) s"
    using accepted_region_has_border [where w = 10 and h = 5 and binary = "replicate 50 255"
        and k = 0 and vis = "replicate 50 0" and shs = "[]" and sx = 0 and sy = 0 and s = s]
      s acc
    by (simp add: ps getIndex_def)
  with s acc show ?thesis by blast
qed

lemma gray_black: "toUint8Clamp (grayValue 0 0 0) = 0"
  by code_simp

text \<open>
  Claim C3: on a 100\<times>100 buffer whose pixels are all black (red, green and blue 0, any
  alpha), Otsu's scan finds no split and keeps 127, every cell of the mask is foreground,
  and \<open>detectShapes\<close> returns exactly one shape, of area 10000 and with the bounding box
  \<open>x = 0, y = 0, width = 100, height = 100\<close>.
\<close>

theorem black_100x100_one_shape:
  assumes "length d = 40000"
    and "\<forall>k < 10000. d ! (4 * k) = 0 \<and> d ! (4 * k + 1) = 0 \<and> d ! (4 * k + 2) = 0"
  shows "otsu (grayscale 100 100 d) (100 * 100) = 127
    \<and> binarize (grayscale 100 100 d) 127 = replicate 10000 255
    \<and> (\<exists>sh. detectShapes start finish \<lparr>width = 100, height = 100, data = d\<rparr>
             = Some (Inr \<lparr>shapes = [sh], processingTime = fsub finish start,
                        imageWidth = 100, imageHeight = 100\<rparr>)
           \<and> area sh = 10000
           \<and> boundingBox sh = \<lparr>box_x = 0, box_y = 0, box_width = 100, box_height = 100\<rparr>)"
proof -
  have len: "length d = 4 * nat (100 * 100)" using assms(1) by simp
  have uni: "\<forall>k < nat (100 * 100). d ! (4 * k) = 0 \<and> d ! (4 * k + 1) = 0 \<and> d ! (4 * k + 2) = 0"
    using assms(2) by simp
  have gray: "grayscale 100 100 d = replicate 10000 0"
    using grayscale_uniform [OF len uni] by (simp add: gray_black)
  have th: "otsu (grayscale 100 100 d) (100 * 100) = 127"
    using otsu_uniform [of 0 10000] by (simp add: gray)
  have bin: "binarize (grayscale 100 100 d) 127 = replicate 10000 255"
    by (simp add: gray binarize_replicate)
  from detectShapes_uniform [OF _ _ len uni, of start finish]
  have "\<exists>sh. detectShapes start finish \<lparr>width = 100, height = 100, data = d\<rparr>
             = Some (Inr \<lparr>shapes = [sh], processingTime = fsub finish start,
                        imageWidth = 100, imageHeight = 100\<rparr>)
           \<and> area sh = 10000
           \<and> boundingBox sh = \<lparr>box_x = 0, box_y = 0, box_width = 100, box_height = 100\<rparr>"
    by (auto simp: gray_black)
  with th bin show ?thesis by blast
qed

theorem black_100x100_one_shape_witness:
  "\<exists>sh. detectShapes 0 0 \<lparr>width = 100, height = 100, data = replicate 40000 0\<rparr>
           = Some (Inr \<lparr>shapes = [sh], processingTime = fsub 0 0,
                      imageWidth = 100, imageHeight = 100\<rparr>)
         \<and> area sh = 10000
         \<and> boundingBox sh = \<lparr>box_x = 0, box_y = 0, box_width = 100, box_height = 100\<rparr>"
  using black_100x100_one_shape [where d = "replicate 40000 0" and start = 0 and finish = 0]
  by simp

text \<open>
  Claim C2, as stated, fails: a 10\<times>5 buffer whose bytes are all 0 has all its pixels
  identical, and the pipeline returns one shape for it.
\<close>

theorem uniform_black_has_shape:
  "map_option (map_sum id (length \<circ> shapes))
     (detectShapes 0 0 \<lparr>width = 10, height = 5, data = replicate 200 0\<rparr>) = Some (Inr 1)"
proof -
  have len: "length (replicate 200 (0 :: 8 word)) = 4 * nat (10 * 5)" by simp
  have uni: "\<forall>k < nat (10 * 5). replicate 200 (0 :: 8 word) ! (4 * k) = 0
      \<and> replicate 200 (0 :: 8 word) ! (4 * k + 1) = 0
      \<and> replicate 200 (0 :: 8 word) ! (4 * k + 2) = 0"
    by simp
  from detectShapes_uniform [OF _ _ len uni, of 0 0]
  show ?thesis by (auto simp: gray_black)
qed

text \<open>
  Claim C2, amended: for a buffer of a \<open>W \<times> H\<close> image in which all pixels are identical,
  with gray value \<open>v\<close>, the pipeline returns an empty shape list when \<open>v \<ge> 127\<close> or the
  image has fewer than 50 pixels; when \<open>v < 127\<close> and the image has at least 50 pixels it
  returns exactly one shape, whose area and bounding box are those of the whole image.
\<close>

theorem uniform_image_shapes:
  assumes "0 \<le> w" "0 \<le> h" and "length d = 4 * nat (w * h)"
    and "\<forall>k < nat (w * h). d ! (4 * k) = r \<and> d ! (4 * k + 1) = g \<and> d ! (4 * k + 2) = b
                             \<and> d ! (4 * k + 3) = a"
  shows "\<exists>shs. detectShapes start finish \<lparr>width = w, height = h, data = d\<rparr>
             = Some (Inr \<lparr>shapes = shs, processingTime = fsub finish start,
                        imageWidth = w, imageHeight = h\<rparr>)
           \<and> (127 \<le> toUint8Clamp (grayValue r g b) \<or> w * h < 50 \<longrightarrow> shs = [])
           \<and> (toUint8Clamp (grayValue r g b) < 127 \<and> 50 \<le> w * h \<longrightarrow>
                (\<exists>sh. shs = [sh] \<and> area sh = nat (w * h)
                   \<and> boundingBox sh = \<lparr>box_x = 0, box_y = 0, box_width = w, box_height = h\<rparr>))"
proof -
  from assms(4)
  have "\<forall>k < nat (w * h). d ! (4 * k) = r \<and> d ! (4 * k + 1) = g \<and> d ! (4 * k + 2) = b"
    by simp
  with assms(1-3) show ?thesis by (rule detectShapes_uniform)
qed

lemma gray_white: "toUint8Clamp (grayValue 255 255 255) = 255"
  by code_simp

theorem uniform_image_shapes_witness:
  "detectShapes 0 0 \<lparr>width = 10, height = 5, data = replicate 200 255\<rparr>
     = Some (Inr \<lparr>shapes = [], processingTime = fsub 0 0, imageWidth = 10, imageHeight = 5\<rparr>)"
  using uniform_image_shapes [where w = 10 and h = 5 and d = "replicate 200 255"
      and r = 255 and g = 255 and b = 255 and a = 255 and start = 0 and finish = 0]
  by (auto simp: gray_white)

section \<open>The circularity of a region without perimeter\<close>










section \<open>The accuracy of the grayscale stage\<close>

lemma fl_nonneg: "0 \<le> x \<Longrightarrow> 0 \<le> fl x"
  using fl_mono [of 0 x] by simp

lemma fl_le_int:
  assumes "x \<le> real_of_int n" "\<bar>n\<bar> < 2 ^ 53"
  shows "fl x \<le> real_of_int n"
  using fl_mono [OF assms(1)] fl_int [OF assms(2)] by simp

lemma fl_error_512:
  assumes "0 \<le> x" "x < 512"
  shows "\<bar>fl x - x\<bar> \<le> 1 / 2 ^ 45"
proof (cases "x = 0")
  case True
  then show ?thesis by simp
next
  case False
  with assms have x: "0 < x" by simp
  have "pow2 (expo x) \<le> x" using expo_bounds [OF x] by simp
  also have "x < pow2 9" using assms(2) by (simp add: pow2_def)
  finally have "expo x < 9" by simp
  then have "pow2 (expo x - 53) \<le> pow2 (- 45)" by simp
  also have "pow2 (- 45) = 1 / 2 ^ 45" by (simp add: pow2_def)
  finally show ?thesis using fl_error [OF x] by linarith
qed

lemma rne_near:
  assumes "\<bar>v - real_of_int m\<bar> < 1 / 2"
  shows "rne v = m"
proof -
  have "\<bar>real_of_int (rne v) - real_of_int m\<bar> < 1"
    using rne_close [of v] assms by linarith
  then have "\<bar>real_of_int (rne v - m)\<bar> < 1" by simp
  then have "\<bar>rne v - m\<bar> < 1" by (simp only: of_int_abs [symmetric] of_int_less_1_iff)
  then show ?thesis by simp
qed

lemma rne_tie:
  assumes "\<bar>v - (real_of_int m - 1 / 2)\<bar> < 1 / 2"
  shows "rne v = m - 1 \<or> rne v = m"
proof -
  from assms have "real_of_int m - 1 \<le> v" "v < real_of_int m" by linarith+
  then have "real_of_int (m - 1) \<le> v" "v < real_of_int (m - 1) + 1" by simp_all
  then have "\<lfloor>v\<rfloor> = m - 1" by (simp only: floor_unique)
  with rne_lower [of v] rne_upper [of v] show ?thesis by linarith
qed

lemma gray_sum_close:
  fixes R G B :: real
  assumes bnd: "0 \<le> R" "R \<le> 255" "0 \<le> G" "G \<le> 255" "0 \<le> B" "B \<le> 255"
  shows "\<bar>fl (fl (fl (d0_299 * R) + fl (d0_587 * G)) + fl (d0_114 * B))
          - (299 / 1000 * R + 587 / 1000 * G + 114 / 1000 * B)\<bar> \<le> 1 / 10 ^ 9"
proof -
  let ?x1 = "d0_299 * R" and ?x2 = "d0_587 * G" and ?x3 = "d0_114 * B"
  have x1: "0 \<le> ?x1" "?x1 \<le> 77" "\<bar>?x1 - 299 / 1000 * R\<bar> \<le> 1 / 10 ^ 12"
    using bnd(1,2) unfolding d0_299_def by (simp_all add: abs_le_iff) (linarith+)?
  have x2: "0 \<le> ?x2" "?x2 \<le> 150" "\<bar>?x2 - 587 / 1000 * G\<bar> \<le> 1 / 10 ^ 12"
    using bnd(3,4) unfolding d0_587_def by (simp_all add: abs_le_iff) (linarith+)?
  have x3: "0 \<le> ?x3" "?x3 \<le> 30" "\<bar>?x3 - 114 / 1000 * B\<bar> \<le> 1 / 10 ^ 12"
    using bnd(5,6) unfolding d0_114_def by (simp_all add: abs_le_iff) (linarith+)?
  let ?p1 = "fl ?x1" and ?p2 = "fl ?x2" and ?p3 = "fl ?x3"
  have p1: "0 \<le> ?p1" "?p1 \<le> 77" "\<bar>?p1 - ?x1\<bar> \<le> 1 / 2 ^ 45"
    using fl_nonneg [OF x1(1)] fl_le_int [of ?x1 77] fl_error_512 [of ?x1] x1 by simp_all
  have p2: "0 \<le> ?p2" "?p2 \<le> 150" "\<bar>?p2 - ?x2\<bar> \<le> 1 / 2 ^ 45"
    using fl_nonneg [OF x2(1)] fl_le_int [of ?x2 150] fl_error_512 [of ?x2] x2 by simp_all
  have p3: "0 \<le> ?p3" "?p3 \<le> 30" "\<bar>?p3 - ?x3\<bar> \<le> 1 / 2 ^ 45"
    using fl_nonneg [OF x3(1)] fl_le_int [of ?x3 30] fl_error_512 [of ?x3] x3 by simp_all
  let ?s1 = "fl (?p1 + ?p2)"
  have s1: "0 \<le> ?s1" "?s1 \<le> 227" "\<bar>?s1 - (?p1 + ?p2)\<bar> \<le> 1 / 2 ^ 45"
    using fl_nonneg [of "?p1 + ?p2"] fl_le_int [of "?p1 + ?p2" 227]
      fl_error_512 [of "?p1 + ?p2"] p1 p2 by simp_all
  let ?s2 = "fl (?s1 + ?p3)"
  have s2: "\<bar>?s2 - (?s1 + ?p3)\<bar> \<le> 1 / 2 ^ 45"
    using fl_error_512 [of "?s1 + ?p3"] s1 p3 by simp
  define y1 y2 y3 q1 q2 q3 t1 t2 T
    where "y1 = ?x1" and "y2 = ?x2" and "y3 = ?x3"
      and "q1 = ?p1" and "q2 = ?p2" and "q3 = ?p3" and "t1 = ?s1" and "t2 = ?s2"
      and "T = 299 / 1000 * R + 587 / 1000 * G + 114 / 1000 * B"
  have e: "(1 :: real) / 2 ^ 45 \<le> 1 / 1000000000000" by simp
  have c: "(1 :: real) / 10 ^ 12 = 1 / 1000000000000" "(1 :: real) / 10 ^ 9 = 1 / 1000000000"
    by simp_all
  have f: "- (1 / 1000000000000) \<le> q1 - y1 \<and> q1 - y1 \<le> 1 / 1000000000000"
    "- (1 / 1000000000000) \<le> q2 - y2 \<and> q2 - y2 \<le> 1 / 1000000000000"
    "- (1 / 1000000000000) \<le> q3 - y3 \<and> q3 - y3 \<le> 1 / 1000000000000"
    "- (1 / 1000000000000) \<le> t1 - (q1 + q2) \<and> t1 - (q1 + q2) \<le> 1 / 1000000000000"
    "- (1 / 1000000000000) \<le> t2 - (t1 + q3) \<and> t2 - (t1 + q3) \<le> 1 / 1000000000000"
    using p1(3) p2(3) p3(3) s1(3) s2 e
    unfolding y1_def y2_def y3_def q1_def q2_def q3_def t1_def t2_def abs_le_iff
    by linarith+
  have g: "- (3 / 1000000000000) \<le> y1 + y2 + y3 - T \<and> y1 + y2 + y3 - T \<le> 3 / 1000000000000"
    using x1(3) x2(3) x3(3)
    unfolding y1_def y2_def y3_def T_def abs_le_iff c
    by linarith
  have "\<bar>t2 - T\<bar> \<le> 1 / 1000000000"
    unfolding abs_le_iff using f g by linarith
  then show ?thesis unfolding t2_def T_def c .
qed

lemma unat_byte_bounds:
  fixes r :: "8 word"
  shows "0 \<le> real (unat r)" "real (unat r) \<le> 255"
proof -
  have "unat r < 2 ^ 8" using unsigned_less [of r] by simp
  then have "unat r \<le> 255" by simp
  then show "real (unat r) \<le> 255" by linarith
  show "0 \<le> real (unat r)" by (rule of_nat_0_le_iff)
qed

lemma grayValue_close:
  fixes r g b :: "8 word"
  shows "\<bar>grayValue r g b
          - (299 / 1000 * real (unat r) + 587 / 1000 * real (unat g)
             + 114 / 1000 * real (unat b))\<bar> \<le> 1 / 10 ^ 9"
  unfolding grayValue_def fadd_def fmul_def
  by (rule gray_sum_close) (rule unat_byte_bounds)+


lemma round_thousandth: "round (real_of_int t / 1000) = (t + 500) div 1000"
proof -
  have "real_of_int t / 1000 + 1 / 2 = real_of_int (t + 500) / real_of_int 1000" by simp
  then have "round (real_of_int t / 1000) = \<lfloor>real_of_int (t + 500) / real_of_int 1000\<rfloor>"
    by (simp only: round_def)
  then show ?thesis by (simp only: floor_divide_of_int_eq)
qed

lemma round_cases:
  fixes t :: int
  defines "q \<equiv> t div 1000" and "a \<equiv> t mod 1000"
  shows "a < 500 \<Longrightarrow> (t + 500) div 1000 = q"
    and "500 \<le> a \<Longrightarrow> (t + 500) div 1000 = q + 1"
    and "t = 1000 * q + a" and "0 \<le> a" and "a < 1000"
proof -
  show eq: "t = 1000 * q + a" by (simp add: q_def a_def)
  show a: "0 \<le> a" "a < 1000" by (simp_all add: a_def)
  {
    assume "a < 500"
    with a have "0 \<le> a + 500" "a + 500 < 1000" by simp_all
    moreover have "t + 500 = 1000 * q + (a + 500)" using eq by simp
    ultimately show "(t + 500) div 1000 = q" by (rule int_div_pos_eq [rotated 1])
  }
  {
    assume "500 \<le> a"
    with a have "0 \<le> a - 500" "a - 500 < 1000" by simp_all
    moreover have "t + 500 = 1000 * (q + 1) + (a - 500)" using eq by simp
    ultimately show "(t + 500) div 1000 = q + 1" by (rule int_div_pos_eq [rotated 1])
  }
qed

lemma toUint8Clamp_gray:
  fixes r g b :: "8 word"
  defines "t \<equiv> 299 * int (unat r) + 587 * int (unat g) + 114 * int (unat b)"
  shows "t mod 1000 \<noteq> 500 \<Longrightarrow> int (toUint8Clamp (grayValue r g b)) = (t + 500) div 1000"
    and "t mod 1000 = 500 \<Longrightarrow>
           int (toUint8Clamp (grayValue r g b)) = (t + 500) div 1000 - 1
           \<or> int (toUint8Clamp (grayValue r g b)) = (t + 500) div 1000"
proof -
  define v where "v = grayValue r g b"
  define c where "c = min 255 (max 0 v)"
  define m where "m = (t + 500) div 1000"
  define T where "T = real_of_int t / 1000"
  define q where "q = t div 1000"
  define a where "a = t mod 1000"
  have "unat r < 2 ^ 8" "unat g < 2 ^ 8" "unat b < 2 ^ 8"
    using unsigned_less [of r] unsigned_less [of g] unsigned_less [of b] by simp_all
  then have "unat r < 256" "unat g < 256" "unat b < 256" by simp_all
  then have t: "0 \<le> t" "t \<le> 255000" unfolding t_def by linarith+
  then have T: "0 \<le> T" "T \<le> 255" by (simp_all add: T_def)
  have "T = 299 / 1000 * real (unat r) + 587 / 1000 * real (unat g) + 114 / 1000 * real (unat b)"
    by (simp add: T_def t_def)
  with grayValue_close [of r g b] have "\<bar>v - T\<bar> \<le> 1 / 10 ^ 9" by (simp only: v_def)
  then have "\<bar>v - T\<bar> \<le> 1 / 1000000000" by simp
  with T have close: "\<bar>c - T\<bar> \<le> 1 / 1000000000" unfolding c_def by linarith
  have c0: "0 \<le> c" unfolding c_def by simp
  then have "rne (real_of_int 0) \<le> rne c" by (intro rne_mono) simp
  then have rc: "0 \<le> rne c" by (simp only: rne_of_int)
  have clamp: "int (toUint8Clamp (grayValue r g b)) = rne c"
    using rc by (simp add: toUint8Clamp_def c_def v_def)
  note rcs = round_cases [of t, folded q_def a_def m_def]
  have eq: "real_of_int t = 1000 * real_of_int q + real_of_int a"
    using rcs(3) by (simp only: of_int_add [symmetric] of_int_mult [symmetric] of_int_numeral)
  have Teq: "T = real_of_int q + real_of_int a / 1000"
    unfolding T_def eq by simp
  have ra: "0 \<le> real_of_int a" "real_of_int a \<le> 999"
    using rcs(4,5) by simp_all
  {
    assume ne: "t mod 1000 \<noteq> 500"
    then have a500: "a \<noteq> 500" by (simp add: a_def)
    have "\<bar>c - real_of_int m\<bar> < 1 / 2"
    proof (cases "a < 500")
      case True
      then have mq: "m = q" by (rule rcs(1))
      from True have "real_of_int a \<le> 499" by simp
      then show ?thesis unfolding mq using close Teq ra by linarith
    next
      case False
      with a500 have "501 \<le> a" by simp
      then have "501 \<le> real_of_int a" by simp
      moreover from False have "m = q + 1" by (intro rcs(2)) simp
      then have "real_of_int m = real_of_int q + 1" by simp
      ultimately show ?thesis using close Teq ra by linarith
    qed
    then have "rne c = m" by (rule rne_near)
    then show "int (toUint8Clamp (grayValue r g b)) = (t + 500) div 1000"
      by (simp only: clamp m_def)
  }
  {
    assume "t mod 1000 = 500"
    then have a500: "a = 500" by (simp add: a_def)
    then have "m = q + 1" by (intro rcs(2)) simp
    then have "real_of_int m = real_of_int q + 1" by simp
    moreover from a500 have "real_of_int a = 500" by simp
    ultimately have "T = real_of_int m - 1 / 2" using Teq by linarith
    with close have "\<bar>c - (real_of_int m - 1 / 2)\<bar> < 1 / 2" by linarith
    then have "rne c = m - 1 \<or> rne c = m" by (rule rne_tie)
    then show "int (toUint8Clamp (grayValue r g b)) = (t + 500) div 1000 - 1
           \<or> int (toUint8Clamp (grayValue r g b)) = (t + 500) div 1000"
      by (simp only: clamp m_def)
  }
qed

text \<open>
  Claim C8, amended: for every pixel of a well-formed RGBA buffer the grayscale stage
  stores the double value of \<open>0.299 R + 0.587 G + 0.114 B\<close>, alpha ignored, converted by
  the typed array: clamped to \<open>[0, 255]\<close> and rounded to the nearest integer, ties to
  even. The stored value is at most 255. It is the exact sum rounded to the nearest integer
  whenever the exact sum is not halfway between two integers; when it is halfway, the
  stored value is one of the two neighbours.
\<close>

theorem grayscale_stores_rounded:
  assumes "length d = 4 * nat (w * h)" "k < nat (w * h)"
  shows "let t = 299 * int (unat (d ! (4 * k))) + 587 * int (unat (d ! (4 * k + 1)))
                 + 114 * int (unat (d ! (4 * k + 2)));
             stored = grayscale w h d ! k
         in stored = toUint8Clamp (grayValue (d ! (4 * k)) (d ! (4 * k + 1)) (d ! (4 * k + 2)))
          \<and> stored \<le> 255
          \<and> (t mod 1000 \<noteq> 500 \<longrightarrow> int stored = round (real_of_int t / 1000))
          \<and> (t mod 1000 = 500 \<longrightarrow> int stored = round (real_of_int t / 1000) - 1
                                    \<or> int stored = round (real_of_int t / 1000))"
proof -
  let ?t = "299 * int (unat (d ! (4 * k))) + 587 * int (unat (d ! (4 * k + 1)))
              + 114 * int (unat (d ! (4 * k + 2)))"
  let ?c = "toUint8Clamp (grayValue (d ! (4 * k)) (d ! (4 * k + 1)) (d ! (4 * k + 2)))"
  have px: "grayscale w h d ! k = ?c" using assms by (rule grayscale_pixel)
  have le: "?c \<le> 255" by (rule toUint8Clamp_le)
  have a: "int ?c = round (real_of_int ?t / 1000)" if "?t mod 1000 \<noteq> 500"
    unfolding round_thousandth using that by (rule toUint8Clamp_gray(1))
  have b: "int ?c = round (real_of_int ?t / 1000) - 1 \<or> int ?c = round (real_of_int ?t / 1000)"
    if "?t mod 1000 = 500"
    unfolding round_thousandth using that by (rule toUint8Clamp_gray(2))
  show ?thesis
    unfolding Let_def px
  proof (intro conjI impI)
    show "?c = ?c" ..
    show "?c \<le> 255" by (rule le)
    show "int ?c = round (real_of_int ?t / 1000)" if "?t mod 1000 \<noteq> 500"
      using that by (rule a)
    show "int ?c = round (real_of_int ?t / 1000) - 1 \<or> int ?c = round (real_of_int ?t / 1000)"
      if "?t mod 1000 = 500"
      using that by (rule b)
  qed
qed

lemma gray_example: "toUint8Clamp (grayValue 10 20 30) = 18"
  by code_simp

theorem grayscale_stores_rounded_witness:
  "grayscale 1 1 [10, 20, 30, 255] ! 0 = 18
   \<and> int (grayscale 1 1 [10, 20, 30, 255] ! 0)
       = round (real_of_int (299 * 10 + 587 * 20 + 114 * 30) / 1000)"
  using grayscale_stores_rounded [of "[10, 20, 30, 255]" 1 1 0]
  by (simp add: Let_def gray_example)

text \<open>
  Claim C8, as stated, fails: for the pixel \<open>(0, 0, 250)\<close> the sum is 28.5, ordinary
  rounding gives 29, and the stage stores 28.
\<close>

theorem grayscale_tie_to_even:
  "grayscale 1 1 [0, 0, 250, 255] = [28]
   \<and> round (0.299 * 0 + 0.587 * 0 + 0.114 * 250 :: real) = 29"
proof -
  have "grayscale 1 1 [0, 0, 250, 255] = [28]" by code_simp
  moreover have "round (0.299 * 0 + 0.587 * 0 + 0.114 * 250 :: real) = 29"
    by (simp add: round_def)
  ultimately show ?thesis by simp
qed

section \<open>Buffers that do not fit the dimensions\<close>

lemma grayStore_cases:
  "grayStore d i = (if i + 2 < length d
                    then toUint8Clamp (grayValue (d ! i) (d ! (i + 1)) (d ! (i + 2))) else 0)"
  by (simp add: grayStore_def byteAt_def)

lemma grayscale_cell:
  assumes "k < nat (w * h)"
  shows "grayscale w h d ! k
           = (if 4 * k + 2 < length d
              then toUint8Clamp (grayValue (d ! (4 * k)) (d ! (4 * k + 1)) (d ! (4 * k + 2)))
              else 0)"
  using grayscale_nth [OF assms, of d] by (simp add: grayStore_cases)

lemma detectShapesLimited_outcome:
  "((width img * height img < 0 \<or> maxLength < width img * height img)
      \<and> detectShapesLimited maxLength start finish img = Some (Inl RangeError))
   \<or> (0 \<le> width img * height img \<and> width img * height img \<le> maxLength \<and>
       (\<exists>shs. detectShapesLimited maxLength start finish img =
          Some (Inr \<lparr>shapes = shs, processingTime = fsub finish start,
                     imageWidth = width img, imageHeight = height img\<rparr>)))"
  using detectShapes_outcome [of img start finish]
  by (cases "maxLength < width img * height img") (auto simp: detectShapesLimited_def)

lemma grayscale_take:
  "grayscale w h (take (4 * nat (w * h)) d) = grayscale w h d"
proof (rule nth_equalityI)
  show "length (grayscale w h (take (4 * nat (w * h)) d)) = length (grayscale w h d)"
    by (simp only: grayscale_length)
next
  fix k assume "k < length (grayscale w h (take (4 * nat (w * h)) d))"
  then have k: "k < nat (w * h)" by (simp only: grayscale_length)
  then have lt: "4 * k + 2 < 4 * nat (w * h)" "4 * k + 1 < 4 * nat (w * h)" "4 * k < 4 * nat (w * h)"
    by linarith+
  show "grayscale w h (take (4 * nat (w * h)) d) ! k = grayscale w h d ! k"
    using lt by (simp add: grayscale_cell [OF k])
qed

lemma detectShapesLimited_surplus:
  "detectShapesLimited maxLength start finish
     (img\<lparr>data := take (4 * nat (width img * height img)) (data img)\<rparr>)
   = detectShapesLimited maxLength start finish img"
  by (simp add: detectShapesLimited_def detectShapes_def Let_def grayscale_take)

text \<open>
  Claim C1, amended: \<open>detectShapes\<close> validates nothing and never reports an invalid
  input. It fails, before any result exists, exactly when the gray buffer of \<open>W \<times> H\<close>
  cells cannot be created, that is when \<open>W \<times> H\<close> is negative or above the largest typed
  array of the implementation, with the \<open>RangeError\<close> of the allocation. For every other
  input, whatever the length of the buffer and also when \<open>W\<close> or \<open>H\<close> is 0, it returns
  a result that carries a shape list. The gray buffer it works on has \<open>W \<times> H\<close> cells:
  cell \<open>k\<close> holds the gray value of the bytes \<open>4k\<close>, \<open>4k + 1\<close> and \<open>4k + 2\<close> when the
  buffer has them and 0 when it does not. The bytes after the first \<open>4 \<sqdot> W \<sqdot> H\<close> are
  ignored: cutting them off does not change the outcome.
\<close>

theorem detectShapes_no_validation:
  "(((width img * height img < 0 \<or> maxLength < width img * height img)
       \<and> detectShapesLimited maxLength start finish img = Some (Inl RangeError))
    \<or> (0 \<le> width img * height img \<and> width img * height img \<le> maxLength \<and>
        (\<exists>shs. detectShapesLimited maxLength start finish img =
           Some (Inr \<lparr>shapes = shs, processingTime = fsub finish start,
                      imageWidth = width img, imageHeight = height img\<rparr>))))
   \<and> length (grayscale (width img) (height img) (data img)) = nat (width img * height img)
   \<and> (\<forall>k < nat (width img * height img).
         grayscale (width img) (height img) (data img) ! k
           = (if 4 * k + 2 < length (data img)
              then toUint8Clamp (grayValue (data img ! (4 * k)) (data img ! (4 * k + 1))
                                   (data img ! (4 * k + 2)))
              else 0))
   \<and> detectShapesLimited maxLength start finish
         (img\<lparr>data := take (4 * nat (width img * height img)) (data img)\<rparr>)
       = detectShapesLimited maxLength start finish img"
proof (intro conjI)
  show "((width img * height img < 0 \<or> maxLength < width img * height img)
       \<and> detectShapesLimited maxLength start finish img = Some (Inl RangeError))
    \<or> (0 \<le> width img * height img \<and> width img * height img \<le> maxLength \<and>
        (\<exists>shs. detectShapesLimited maxLength start finish img =
           Some (Inr \<lparr>shapes = shs, processingTime = fsub finish start,
                      imageWidth = width img, imageHeight = height img\<rparr>)))"
    by (rule detectShapesLimited_outcome)
  show "length (grayscale (width img) (height img) (data img)) = nat (width img * height img)"
    by (rule grayscale_length)
  show "\<forall>k < nat (width img * height img).
         grayscale (width img) (height img) (data img) ! k
           = (if 4 * k + 2 < length (data img)
              then toUint8Clamp (grayValue (data img ! (4 * k)) (data img ! (4 * k + 1))
                                   (data img ! (4 * k + 2)))
              else 0)"
    using grayscale_cell by blast
  show "detectShapesLimited maxLength start finish
         (img\<lparr>data := take (4 * nat (width img * height img)) (data img)\<rparr>)
       = detectShapesLimited maxLength start finish img"
    by (rule detectShapesLimited_surplus)
qed

theorem detectShapes_no_validation_witness:
  "(\<exists>shs. detectShapesLimited 4294967295 0 0
             \<lparr>width = 2, height = 1, data = [10, 20, 30, 255]\<rparr>
           = Some (Inr \<lparr>shapes = shs, processingTime = fsub 0 0,
                      imageWidth = 2, imageHeight = 1\<rparr>))
   \<and> grayscale 2 1 [10, 20, 30, 255] ! 0 = 18
   \<and> grayscale 2 1 [10, 20, 30, 255] ! 1 = 0"
  using detectShapes_no_validation
    [where img = "\<lparr>width = 2, height = 1, data = [10, 20, 30, 255]\<rparr>" and maxLength = 4294967295 and start = 0 and finish = 0]
  by (simp add: gray_example)

section \<open>Otsu's threshold\<close>

lemma weightBefore_0 [simp]: "weightBefore hist 0 = 0"
  by (simp add: weightBefore_def)

lemma weightBefore_Suc: "weightBefore hist (Suc i) = weightBefore hist i + int (hist ! i)"
  by (simp add: weightBefore_def)

lemma sumBefore_0 [simp]: "sumBefore hist 0 = 0"
  by (simp add: sumBefore_def)

lemma sumBefore_Suc: "sumBefore hist (Suc i) = sumBefore hist i + int i * int (hist ! i)"
  by (simp add: sumBefore_def)

lemma weightBefore_nonneg: "0 \<le> weightBefore hist i"
  by (induction i) (simp_all add: weightBefore_Suc)

lemma weightBefore_mono: "i \<le> k \<Longrightarrow> weightBefore hist i \<le> weightBefore hist k"
proof (induction k)
  case 0
  then show ?case by simp
next
  case (Suc k)
  then show ?case
    by (cases "i = Suc k") (simp_all add: weightBefore_Suc add_increasing2)
qed

lemma sumBefore_upper: "sumBefore hist (Suc j) \<le> int j * weightBefore hist (Suc j)"
proof (induction j)
  case 0
  then show ?case by (simp add: sumBefore_Suc)
next
  case (Suc j)
  have "sumBefore hist (Suc (Suc j))
          = sumBefore hist (Suc j) + int (Suc j) * int (hist ! Suc j)"
    by (rule sumBefore_Suc)
  also have "\<dots> \<le> int j * weightBefore hist (Suc j) + int (Suc j) * int (hist ! Suc j)"
    using Suc.IH by simp
  also have "\<dots> \<le> int (Suc j) * weightBefore hist (Suc j) + int (Suc j) * int (hist ! Suc j)"
    using weightBefore_nonneg [of hist "Suc j"] by (simp add: mult_right_mono)
  also have "\<dots> = int (Suc j) * weightBefore hist (Suc (Suc j))"
    by (simp add: weightBefore_Suc [of hist "Suc j"] algebra_simps)
  finally show ?case .
qed

lemma sumBefore_lower:
  "i \<le> k \<Longrightarrow>
   int i * (weightBefore hist k - weightBefore hist i) \<le> sumBefore hist k - sumBefore hist i"
proof (induction k)
  case 0
  then show ?case by simp
next
  case (Suc k)
  show ?case
  proof (cases "i = Suc k")
    case True
    then show ?thesis by simp
  next
    case False
    with Suc.prems have ik: "i \<le> k" by simp
    have "int i * int (hist ! k) \<le> int k * int (hist ! k)"
      using ik by (simp add: mult_right_mono)
    with Suc.IH [OF ik] show ?thesis
      by (simp add: weightBefore_Suc sumBefore_Suc algebra_simps)
  qed
qed

lemma weightedSum_fold:
  "fold (\<lambda>i s. s + int i * int (hist ! i)) xs a
     = a + sum_list (map (\<lambda>j. int j * int (hist ! j)) xs)"
  by (induction xs arbitrary: a) simp_all

lemma weightedSum_sumBefore: "weightedSum hist = sumBefore hist 256"
  by (simp only: weightedSum_def sumBefore_def weightedSum_fold add_0)

lemma betweenVar_betweenAt:
  "betweenVar (weightedSum hist) (sumBefore hist (Suc i)) (weightBefore hist (Suc i))
     (n - weightBefore hist (Suc i)) = betweenAt hist n i"
  by (simp add: betweenVar_def betweenAt_def Let_def fdiv_def fsub_def fmul_def
        weightedSum_sumBefore)

lemma fl_ge_int:
  assumes "real_of_int n \<le> x" "\<bar>n\<bar> < 2 ^ 53"
  shows "real_of_int n \<le> fl x"
  using fl_mono [OF assms(1)] fl_int [OF assms(2)] by simp

lemma fl_ge_1: "1 \<le> x \<Longrightarrow> 1 \<le> fl x"
  using fl_ge_int [of 1 x] by simp

lemma betweenAt_positive:
  assumes v: "validSplit hist n j" and n: "n = weightBefore hist 256"
  shows "0 < betweenAt hist n j"
proof -
  let ?wB = "weightBefore hist (Suc j)" and ?sB = "sumBefore hist (Suc j)"
  let ?wF = "n - ?wB"
  from v have j: "j < 256" and wB: "0 < ?wB" and wF: "0 < ?wF"
    by (simp_all add: validSplit_def)
  define mB where "mB = fdiv (real_of_int ?sB) (real_of_int ?wB)"
  define mF where "mF = fdiv (real_of_int (weightedSum hist - ?sB)) (real_of_int ?wF)"
  have "real_of_int ?sB \<le> real_of_int (int j * ?wB)"
    using sumBefore_upper [of hist j] by (simp only: of_int_le_iff)
  then have "real_of_int ?sB / real_of_int ?wB \<le> real_of_int (int j)"
    using wB by (simp add: pos_divide_le_eq)
  then have mB: "mB \<le> real_of_int (int j)"
    unfolding mB_def fdiv_def using j by (intro fl_le_int) simp_all
  have "int (Suc j) * (weightBefore hist 256 - ?wB) \<le> sumBefore hist 256 - ?sB"
    using j by (intro sumBefore_lower) simp
  then have "real_of_int (int (Suc j) * ?wF) \<le> real_of_int (weightedSum hist - ?sB)"
    unfolding n weightedSum_sumBefore by (simp only: of_int_le_iff)
  then have "real_of_int (int (Suc j)) \<le> real_of_int (weightedSum hist - ?sB) / real_of_int ?wF"
    using wF by (simp add: pos_le_divide_eq)
  then have mF: "real_of_int (int (Suc j)) \<le> mF"
    unfolding mF_def fdiv_def using j by (intro fl_ge_int) simp_all
  define d where "d = fsub mB mF"
  have "mB - mF \<le> real_of_int (- 1)" using mB mF by simp
  then have "d \<le> real_of_int (- 1)"
    unfolding d_def fsub_def by (intro fl_le_int) simp_all
  then have d: "1 \<le> - d" by simp
  have "1 * 1 \<le> (- d) * (- d)" using d by (intro mult_mono) simp_all
  then have "1 \<le> d * d" by simp
  then have sq: "1 \<le> fmul d d" unfolding fmul_def by (rule fl_ge_1)
  have "1 * 1 \<le> ?wB * ?wF" using wB wF by (intro mult_mono) simp_all
  then have "real_of_int (1 * 1) \<le> real_of_int (?wB * ?wF)" by (simp only: of_int_le_iff)
  then have "1 \<le> real_of_int ?wB * real_of_int ?wF" by simp
  then have w: "1 \<le> fmul (real_of_int ?wB) (real_of_int ?wF)"
    unfolding fmul_def by (rule fl_ge_1)
  define P where "P = fmul (real_of_int ?wB) (real_of_int ?wF)"
  define Q where "Q = fmul d d"
  have "1 * 1 \<le> P * Q"
    using w sq unfolding P_def Q_def by (intro mult_mono) simp_all
  then have "1 \<le> P * Q" by simp
  then have "1 \<le> fmul P Q" unfolding fmul_def [of P Q] by (rule fl_ge_1)
  then have "1 \<le> fmul (fmul (real_of_int ?wB) (real_of_int ?wF)) (fmul d d)"
    unfolding P_def Q_def .
  moreover have "betweenAt hist n j = fmul (fmul (real_of_int ?wB) (real_of_int ?wF)) (fmul d d)"
    by (simp add: betweenVar_betweenAt [symmetric] betweenVar_def Let_def d_def mB_def mF_def)
  ultimately show ?thesis by simp
qed

lemma validSplit_less: "validSplit hist n j \<Longrightarrow> j < 256"
  by (simp add: validSplit_def)

lemma bestSoFarI1:
  assumes "j0 < i" "validSplit hist n j0"
    and "thresh < i" "validSplit hist n thresh" "maxVar = betweenAt hist n thresh"
    and "\<And>j. j < i \<Longrightarrow> validSplit hist n j \<Longrightarrow> betweenAt hist n j \<le> maxVar"
    and "\<And>j. j < thresh \<Longrightarrow> validSplit hist n j \<Longrightarrow> betweenAt hist n j < maxVar"
  shows "bestSoFar hist n i maxVar thresh"
  unfolding bestSoFar_def using assms by auto

lemma bestSoFarI2:
  assumes "\<And>j. j < i \<Longrightarrow> \<not> validSplit hist n j" "maxVar = 0" "thresh = 127"
  shows "bestSoFar hist n i maxVar thresh"
  unfolding bestSoFar_def using assms by auto

lemma bestSoFarD1:
  assumes "bestSoFar hist n i maxVar thresh" "j0 < i" "validSplit hist n j0"
  shows "thresh < i" and "validSplit hist n thresh" and "maxVar = betweenAt hist n thresh"
    and "\<And>j. j < i \<Longrightarrow> validSplit hist n j \<Longrightarrow> betweenAt hist n j \<le> maxVar"
    and "\<And>j. j < thresh \<Longrightarrow> validSplit hist n j \<Longrightarrow> betweenAt hist n j < maxVar"
proof -
  from assms(2,3) have ex: "\<exists>j < i. validSplit hist n j" by blast
  note c = assms(1) [unfolded bestSoFar_def if_P [OF ex]]
  from c show "thresh < i" by blast
  from c show "validSplit hist n thresh" by blast
  from c show "maxVar = betweenAt hist n thresh" by blast
  from c show "\<And>j. j < i \<Longrightarrow> validSplit hist n j \<Longrightarrow> betweenAt hist n j \<le> maxVar" by blast
  from c show "\<And>j. j < thresh \<Longrightarrow> validSplit hist n j \<Longrightarrow> betweenAt hist n j < maxVar"
    by blast
qed

lemma bestSoFarD2:
  assumes "bestSoFar hist n i maxVar thresh" "\<And>j. j < i \<Longrightarrow> \<not> validSplit hist n j"
  shows "maxVar = 0" and "thresh = 127"
proof -
  from assms(2) have nex: "\<not> (\<exists>j < i. validSplit hist n j)" by blast
  note c = assms(1) [unfolded bestSoFar_def if_not_P [OF nex]]
  from c show "maxVar = 0" and "thresh = 127" by blast+
qed

lemma otsuSpecI1:
  assumes "validSplit hist n t"
    and "\<And>j. validSplit hist n j \<Longrightarrow> betweenAt hist n j \<le> betweenAt hist n t"
    and "\<And>j. j < t \<Longrightarrow> validSplit hist n j \<Longrightarrow> betweenAt hist n j < betweenAt hist n t"
  shows "otsuSpec hist n t"
  unfolding otsuSpec_def using assms by auto

lemma otsuSpecI2:
  assumes "\<And>j. \<not> validSplit hist n j" "t = 127"
  shows "otsuSpec hist n t"
  unfolding otsuSpec_def using assms by auto

lemma bestSoFar_all:
  assumes b: "bestSoFar hist n i maxVar thresh"
    and all: "\<And>j. validSplit hist n j \<Longrightarrow> j < i"
  shows "otsuSpec hist n thresh"
proof (cases "\<exists>j. validSplit hist n j")
  case True
  then obtain j0 where j0: "validSplit hist n j0" by blast
  note d = bestSoFarD1 [OF b all [OF j0] j0]
  show ?thesis
  proof (rule otsuSpecI1)
    show "validSplit hist n thresh" by (rule d(2))
    show "betweenAt hist n j \<le> betweenAt hist n thresh" if "validSplit hist n j" for j
      using d(4) [OF all [OF that] that] d(3) by simp
    show "betweenAt hist n j < betweenAt hist n thresh" if "j < thresh" "validSplit hist n j" for j
      using d(5) [OF that] d(3) by simp
  qed
next
  case False
  then have none: "\<not> validSplit hist n j" for j by blast
  then have "thresh = 127" using bestSoFarD2(2) [OF b] by blast
  with none show ?thesis by (intro otsuSpecI2)
qed

lemma bestSoFar_break:
  assumes "bestSoFar hist n i maxVar thresh" "weightBefore hist (Suc i) = n"
  shows "otsuSpec hist n thresh"
proof (rule bestSoFar_all [OF assms(1)])
  fix j assume v: "validSplit hist n j"
  show "j < i"
  proof (rule ccontr)
    assume "\<not> j < i"
    then have "Suc i \<le> Suc j" by simp
    then have "weightBefore hist (Suc i) \<le> weightBefore hist (Suc j)" by (rule weightBefore_mono)
    with assms(2) v show False by (simp add: validSplit_def)
  qed
qed

lemma bestSoFar_skip:
  assumes b: "bestSoFar hist n i maxVar thresh" and nv: "\<not> validSplit hist n i"
  shows "bestSoFar hist n (Suc i) maxVar thresh"
proof (cases "\<exists>j < i. validSplit hist n j")
  case True
  then obtain j0 where j0: "j0 < i" "validSplit hist n j0" by blast
  note d = bestSoFarD1 [OF b j0]
  show ?thesis
  proof (rule bestSoFarI1 [of j0])
    show "j0 < Suc i" using j0(1) by simp
    show "thresh < Suc i" using d(1) by simp
    show "betweenAt hist n j \<le> maxVar" if "j < Suc i" "validSplit hist n j" for j
    proof -
      from that nv have "j < i" by (cases "j = i") auto
      then show ?thesis using that(2) by (rule d(4))
    qed
  qed (use j0 d in auto)
next
  case False
  then have none: "\<not> validSplit hist n j" if "j < i" for j using that by blast
  show ?thesis
  proof (rule bestSoFarI2)
    show "\<not> validSplit hist n j" if "j < Suc i" for j
      using that none nv by (cases "j = i") auto
  qed (use bestSoFarD2 [OF b none] in auto)
qed

lemma bestSoFar_better:
  assumes b: "bestSoFar hist n i maxVar thresh" and v: "validSplit hist n i"
    and lt: "maxVar < betweenAt hist n i"
  shows "bestSoFar hist n (Suc i) (betweenAt hist n i) i"
proof -
  have old: "betweenAt hist n j \<le> maxVar" if "j < i" "validSplit hist n j" for j
    using bestSoFarD1(4) [OF b that that] .
  show ?thesis
  proof (rule bestSoFarI1 [of i])
    show "betweenAt hist n j \<le> betweenAt hist n i" if "j < Suc i" "validSplit hist n j" for j
      using that old [of j] lt by (cases "j = i") auto
    show "betweenAt hist n j < betweenAt hist n i" if "j < i" "validSplit hist n j" for j
      using old [OF that] lt by simp
  qed (use v in auto)
qed

lemma bestSoFar_keep:
  assumes b: "bestSoFar hist n i maxVar thresh" and v: "validSplit hist n i"
    and ge: "\<not> maxVar < betweenAt hist n i" and pos: "0 < betweenAt hist n i"
  shows "bestSoFar hist n (Suc i) maxVar thresh"
proof -
  have "\<exists>j < i. validSplit hist n j"
  proof (rule ccontr)
    assume "\<not> (\<exists>j < i. validSplit hist n j)"
    then have "\<not> validSplit hist n j" if "j < i" for j using that by blast
    from bestSoFarD2(1) [OF b this] have "maxVar = 0" by blast
    with ge pos show False by simp
  qed
  then obtain j0 where j0: "j0 < i" "validSplit hist n j0" by blast
  note d = bestSoFarD1 [OF b j0]
  show ?thesis
  proof (rule bestSoFarI1 [of j0])
    show "j0 < Suc i" using j0(1) by simp
    show "thresh < Suc i" using d(1) by simp
    show "betweenAt hist n j \<le> maxVar" if "j < Suc i" "validSplit hist n j" for j
      using that d(4) [of j] ge by (cases "j = i") auto
  qed (use j0 d in auto)
qed

lemma otsuLoop_spec:
  assumes "wB = weightBefore hist i" "sumB = sumBefore hist i"
    and n: "n = weightBefore hist 256"
    and "bestSoFar hist n i maxVar thresh"
  shows "otsuSpec hist n (otsuLoop hist n (weightedSum hist) i sumB wB maxVar thresh)"
  using assms(1,2,4)
proof (induction "256 - i" arbitrary: i sumB wB maxVar thresh)
  case 0
  then have "otsuLoop hist n (weightedSum hist) i sumB wB maxVar thresh = thresh"
    by (subst otsuLoop.simps) simp
  moreover have "otsuSpec hist n thresh"
  proof (rule bestSoFar_all [OF "0.prems"(3)])
    fix j assume "validSplit hist n j"
    then have "j < 256" by (rule validSplit_less)
    with "0.hyps" show "j < i" by simp
  qed
  ultimately show ?case by simp
next
  case (Suc k)
  then have i: "i < 256" by simp
  let ?w = "weightBefore hist (Suc i)"
  have w: "?w = wB + int (hist ! i)" by (simp add: weightBefore_Suc Suc.prems(1))
  have k: "k = 256 - Suc i" using Suc.hyps(2) by simp
  show ?case
  proof (cases "?w = 0")
    case True
    have "0 \<le> weightBefore hist i" by (rule weightBefore_nonneg)
    with True have h0: "hist ! i = 0" by (simp add: weightBefore_Suc)
    then have sB: "sumB = sumBefore hist (Suc i)" by (simp add: sumBefore_Suc Suc.prems(2))
    from True have "\<not> validSplit hist n i" by (simp add: validSplit_def)
    with Suc.prems(3) have "bestSoFar hist n (Suc i) maxVar thresh" by (rule bestSoFar_skip)
    from Suc.hyps(1) [OF k refl sB this]
    have "otsuSpec hist n (otsuLoop hist n (weightedSum hist) (Suc i) sumB ?w maxVar thresh)" .
    moreover have "otsuLoop hist n (weightedSum hist) i sumB wB maxVar thresh
        = otsuLoop hist n (weightedSum hist) (Suc i) sumB ?w maxVar thresh"
      using i True w by (subst otsuLoop.simps) (simp add: Let_def)
    ultimately show ?thesis by simp
  next
    case False
    show ?thesis
    proof (cases "n - ?w = 0")
      case True
      then have "?w = n" by simp
      with Suc.prems(3) have "otsuSpec hist n thresh" by (rule bestSoFar_break)
      moreover have "otsuLoop hist n (weightedSum hist) i sumB wB maxVar thresh = thresh"
        using i False True w by (subst otsuLoop.simps) (simp add: Let_def)
      ultimately show ?thesis by simp
    next
      case nz: False
      have "0 \<le> ?w" by (rule weightBefore_nonneg)
      with False have wpos: "0 < ?w" by simp
      have "?w \<le> weightBefore hist 256" using i by (intro weightBefore_mono) simp
      with nz n have fpos: "0 < n - ?w" by simp
      from i wpos fpos have v: "validSplit hist n i" by (simp add: validSplit_def)
      have pos: "0 < betweenAt hist n i" using v n by (rule betweenAt_positive)
      let ?sB = "sumBefore hist (Suc i)"
      have sB: "?sB = sumB + int i * int (hist ! i)"
        by (simp add: sumBefore_Suc Suc.prems(2))
      have bt: "betweenVar (weightedSum hist) ?sB ?w (n - ?w) = betweenAt hist n i"
        by (rule betweenVar_betweenAt)
      show ?thesis
      proof (cases "maxVar < betweenAt hist n i")
        case True
        with Suc.prems(3) v have "bestSoFar hist n (Suc i) (betweenAt hist n i) i"
          by (rule bestSoFar_better)
        from Suc.hyps(1) [OF k refl refl this]
        have "otsuSpec hist n
          (otsuLoop hist n (weightedSum hist) (Suc i) ?sB ?w (betweenAt hist n i) i)" .
        moreover have "otsuLoop hist n (weightedSum hist) i sumB wB maxVar thresh
            = otsuLoop hist n (weightedSum hist) (Suc i) ?sB ?w (betweenAt hist n i) i"
          using i False nz True
          by (subst otsuLoop.simps) (simp add: Let_def w [symmetric] sB [symmetric] bt)
        ultimately show ?thesis by simp
      next
        case ge: False
        with Suc.prems(3) v have "bestSoFar hist n (Suc i) maxVar thresh"
          using pos by (rule bestSoFar_keep)
        from Suc.hyps(1) [OF k refl refl this]
        have "otsuSpec hist n
          (otsuLoop hist n (weightedSum hist) (Suc i) ?sB ?w maxVar thresh)" .
        moreover have "otsuLoop hist n (weightedSum hist) i sumB wB maxVar thresh
            = otsuLoop hist n (weightedSum hist) (Suc i) ?sB ?w maxVar thresh"
          using i False nz ge
          by (subst otsuLoop.simps) (simp add: Let_def w [symmetric] sB [symmetric] bt)
        ultimately show ?thesis by simp
      qed
    qed
  qed
qed

lemma histogram_fold_length:
  "length (fold (\<lambda>g hist. hist[g := Suc (hist ! g)]) gray h0) = length h0"
  by (induction gray arbitrary: h0) simp_all

lemma sum_list_bump:
  "g < length h \<Longrightarrow> sum_list (h[g := Suc (h ! g)]) = Suc (sum_list h)"
proof (induction h arbitrary: g)
  case Nil
  then show ?case by simp
next
  case (Cons a h)
  then show ?case by (cases g) simp_all
qed

lemma histogram_fold_sum:
  "\<forall>g \<in> set gray. g < length h0 \<Longrightarrow>
   sum_list (fold (\<lambda>g hist. hist[g := Suc (hist ! g)]) gray h0) = sum_list h0 + length gray"
proof (induction gray arbitrary: h0)
  case Nil
  then show ?case by simp
next
  case (Cons g gray)
  have "sum_list (fold (\<lambda>g hist. hist[g := Suc (hist ! g)]) gray (h0[g := Suc (h0 ! g)]))
          = sum_list (h0[g := Suc (h0 ! g)]) + length gray"
    using Cons.prems by (intro Cons.IH) simp
  with Cons.prems show ?case by (simp add: sum_list_bump)
qed

lemma histogram_length: "length (histogram gray) = 256"
  by (simp add: histogram_def histogram_fold_length)

lemma int_sum_list: "int (sum_list ys) = sum_list (map int ys)"
  by (induction ys) simp_all

lemma weightBefore_all:
  assumes "length hist = 256"
  shows "weightBefore hist 256 = int (sum_list hist)"
proof -
  have "map (\<lambda>j. int (hist ! j)) [0..<256] = map int (map (\<lambda>j. hist ! j) [0..<length hist])"
    by (simp only: assms map_map comp_def)
  also have "\<dots> = map int hist" by (simp only: map_nth)
  finally show ?thesis by (simp only: weightBefore_def int_sum_list)
qed

lemma histogram_total:
  assumes "\<forall>g \<in> set gray. g < 256"
  shows "weightBefore (histogram gray) 256 = int (length gray)"
proof -
  have "\<forall>g \<in> set gray. g < length (replicate 256 (0 :: nat))" using assms by simp
  from histogram_fold_sum [OF this]
  have "sum_list (histogram gray) = length gray" by (simp add: histogram_def)
  with weightBefore_all [OF histogram_length, of gray] show ?thesis by simp
qed

lemma otsuLoop_break:
  assumes "i < 256" "wB + int (hist ! i) \<noteq> 0" "n - (wB + int (hist ! i)) = 0"
  shows "otsuLoop hist n sumAll i sumB wB maxVar thresh = thresh"
  using assms by (subst otsuLoop.simps) (simp add: Let_def)

lemma otsu_otsuSpec:
  assumes "\<forall>g \<in> set gray. g < 256"
  shows "otsuSpec (histogram gray) (int (length gray)) (otsu gray (int (length gray)))"
proof -
  let ?h = "histogram gray" and ?n = "int (length gray)"
  have n: "?n = weightBefore ?h 256" using histogram_total [OF assms] by simp
  have b: "bestSoFar ?h ?n 0 0 127" by (rule bestSoFarI2) simp_all
  have "otsuSpec ?h ?n (otsuLoop ?h ?n (weightedSum ?h) 0 0 0 0 127)"
    using _ _ n b by (rule otsuLoop_spec) simp_all
  then show ?thesis by (simp add: otsu_def Let_def)
qed

subsection \<open>The rounding error of the computed variance\<close>

text \<open>
  Every rounding has a relative error of at most \<open>1 / 2 ^ 53\<close>. The class means lie in
  \<open>[0, 255]\<close> and differ by at least 1, so the subtraction loses at most a factor of 511,
  and the computed variance of a valid split differs from the exact one by at most the
  fraction \<open>1 / 2 ^ 42\<close> of it.
\<close>

lemma fl_rel_pos:
  assumes "0 < x"
  shows "\<bar>fl x - x\<bar> \<le> x / 2 ^ 53"
proof -
  have "pow2 (expo x) = pow2 (expo x - 53 + int 53)" by simp
  also have "\<dots> = pow2 (expo x - 53) * 2 ^ 53" by (rule pow2_shift)
  finally have "pow2 (expo x - 53) = pow2 (expo x) / 2 ^ 53" by simp
  also have "\<dots> \<le> x / 2 ^ 53"
    using expo_bounds [OF assms] by (intro divide_right_mono) simp_all
  finally show ?thesis using fl_error [OF assms] by linarith
qed

lemma fl_rel: "\<bar>fl x - x\<bar> \<le> \<bar>x\<bar> / 2 ^ 53"
proof -
  consider "0 < x" | "x = 0" | "x < 0" by linarith
  then show ?thesis
  proof cases
    case 1
    then show ?thesis using fl_rel_pos [of x] by simp
  next
    case 2
    then show ?thesis by simp
  next
    case 3
    then have "0 < - x" by simp
    from fl_rel_pos [OF this] show ?thesis using 3 by (simp add: fl_minus)
  qed
qed

lemma rel_fl:
  assumes a: "0 \<le> a" and x: "\<bar>x - a\<bar> \<le> e * a" and e: "e \<le> 1"
  shows "\<bar>fl x - a\<bar> \<le> (e + 2 / 2 ^ 53) * a"
proof -
  have ea: "e * a \<le> 1 * a" using e a by (rule mult_right_mono)
  have "\<bar>x\<bar> \<le> 2 * a" using x ea by linarith
  then have "\<bar>x\<bar> / 2 ^ 53 \<le> 2 * a / 2 ^ 53" by (intro divide_right_mono) simp_all
  with fl_rel [of x] have "\<bar>fl x - x\<bar> \<le> 2 / 2 ^ 53 * a" by simp
  moreover have "(e + 2 / 2 ^ 53) * a = e * a + 2 / 2 ^ 53 * a" by (rule distrib_right)
  ultimately show ?thesis using x by linarith
qed

lemma rel_mult:
  fixes a b x y e f :: real
  assumes a: "0 \<le> a" and b: "0 \<le> b"
    and x: "\<bar>x - a\<bar> \<le> e * a" and y: "\<bar>y - b\<bar> \<le> f * b"
    and e: "0 \<le> e" and f: "f \<le> 1"
  shows "\<bar>x * y - a * b\<bar> \<le> (2 * e + f) * (a * b)"
proof -
  have fb: "f * b \<le> 1 * b" using f b by (rule mult_right_mono)
  have y2: "\<bar>y\<bar> \<le> 2 * b" using y fb by linarith
  have ea: "0 \<le> e * a" using e a by simp
  have "\<bar>(x - a) * y\<bar> = \<bar>x - a\<bar> * \<bar>y\<bar>" by (rule abs_mult)
  also have "\<dots> \<le> (e * a) * (2 * b)" using x y2 ea by (intro mult_mono) simp_all
  also have "\<dots> = 2 * e * (a * b)" by simp
  finally have 1: "\<bar>(x - a) * y\<bar> \<le> 2 * e * (a * b)" .
  have "\<bar>a * (y - b)\<bar> = a * \<bar>y - b\<bar>" using a by (simp add: abs_mult)
  also have "\<dots> \<le> a * (f * b)" using y a by (rule mult_left_mono)
  also have "\<dots> = f * (a * b)" by simp
  finally have 2: "\<bar>a * (y - b)\<bar> \<le> f * (a * b)" .
  have "x * y - a * b = (x - a) * y + a * (y - b)" by (simp add: algebra_simps)
  then have "\<bar>x * y - a * b\<bar> \<le> \<bar>(x - a) * y\<bar> + \<bar>a * (y - b)\<bar>"
    by (simp only: abs_triangle_ineq)
  moreover have "(2 * e + f) * (a * b) = 2 * e * (a * b) + f * (a * b)" by (rule distrib_right)
  ultimately show ?thesis using 1 2 by linarith
qed

lemma sumBefore_nonneg: "0 \<le> sumBefore hist i"
  by (induction i) (simp_all add: sumBefore_Suc)

lemma betweenAt_close:
  assumes v: "validSplit hist n j" and n: "n = weightBefore hist 256"
  shows "\<bar>betweenAt hist n j - exactBetween hist n j\<bar> \<le> exactBetween hist n j / 2 ^ 42"
proof -
  let ?wB = "weightBefore hist (Suc j)" and ?sB = "sumBefore hist (Suc j)"
  let ?wF = "n - ?wB"
  from v have j: "j < 256" and wB: "0 < ?wB" and wF: "0 < ?wF"
    by (simp_all add: validSplit_def)
  define wB where "wB = real_of_int ?wB"
  define wF where "wF = real_of_int n - wB"
  define sB where "sB = real_of_int ?sB"
  define sA where "sA = real_of_int (sumBefore hist 256)"
  define mB where "mB = sB / wB"
  define mF where "mF = (sA - sB) / wF"
  define D where "D = mF - mB"
  have wBp: "0 < wB" using wB by (simp add: wB_def)
  have wFp: "0 < wF" using wF by (simp add: wF_def wB_def)
  have "real_of_int ?sB \<le> real_of_int (int j * ?wB)"
    using sumBefore_upper [of hist j] by (simp only: of_int_le_iff)
  then have "mB \<le> real j"
    using wBp by (simp add: mB_def sB_def wB_def pos_divide_le_eq)
  moreover have "real j \<le> 255" using j by simp
  ultimately have mB255: "mB \<le> 255" and mBj: "mB \<le> real j" by linarith+
  have mB0: "0 \<le> mB" using wBp sumBefore_nonneg [of hist "Suc j"] by (simp add: mB_def sB_def)
  have "int (Suc j) * (weightBefore hist 256 - ?wB) \<le> sumBefore hist 256 - ?sB"
    using j by (intro sumBefore_lower) simp
  then have "real_of_int (int (Suc j) * ?wF) \<le> real_of_int (sumBefore hist 256 - ?sB)"
    unfolding n by (simp only: of_int_le_iff)
  then have "real (Suc j) * wF \<le> sA - sB"
    by (simp add: wF_def wB_def sA_def sB_def)
  then have mFj: "real (Suc j) \<le> mF"
    using wFp by (simp add: mF_def pos_le_divide_eq)
  have D1: "1 \<le> D" using mBj mFj by (simp add: D_def)
  have mF0: "0 \<le> mF" using mFj by linarith
  have D0: "0 \<le> D" using D1 by linarith
  define mB' where "mB' = fl mB"
  define mF' where "mF' = fl mF"
  have eB: "\<bar>mB' - mB\<bar> \<le> mB / 2 ^ 53" using fl_rel [of mB] mB0 by (simp add: mB'_def)
  have eF: "\<bar>mF' - mF\<bar> \<le> mF / 2 ^ 53" using fl_rel [of mF] mF0 by (simp add: mF'_def)
  define x where "x = mF' - mB'"
  have "\<bar>x - D\<bar> \<le> \<bar>mF' - mF\<bar> + \<bar>mB' - mB\<bar>" unfolding x_def D_def by linarith
  then have "\<bar>x - D\<bar> \<le> (mB + mF) / 2 ^ 53"
    using eB eF by (simp only: add_divide_distrib)
  moreover have "mB + mF \<le> 511 * D" using mB255 D1 unfolding D_def by (simp add: algebra_simps)
  then have "(mB + mF) / 2 ^ 53 \<le> 511 * D / 2 ^ 53" by (intro divide_right_mono) simp_all
  ultimately have x: "\<bar>x - D\<bar> \<le> 511 / 2 ^ 53 * D" by simp
  define dl where "dl = fl x"
  have dl: "\<bar>dl - D\<bar> \<le> 513 / 2 ^ 53 * D"
    using rel_fl [OF D0 x] by (simp add: dl_def)
  have DD0: "0 \<le> D * D" using D0 by simp
  have q: "\<bar>dl * dl - D * D\<bar> \<le> 1539 / 2 ^ 53 * (D * D)"
    using rel_mult [OF D0 D0 dl dl] by simp
  define Q where "Q = fl (dl * dl)"
  have Q: "\<bar>Q - D * D\<bar> \<le> 1541 / 2 ^ 53 * (D * D)"
    using rel_fl [OF DD0 q] by (simp add: Q_def)
  define P where "P = wB * wF"
  have P0: "0 \<le> P" using wBp wFp by (simp add: P_def)
  define P' where "P' = fl P"
  have P': "\<bar>P' - P\<bar> \<le> 1 / 2 ^ 53 * P" using fl_rel [of P] P0 by (simp add: P'_def)
  have r: "\<bar>P' * Q - P * (D * D)\<bar> \<le> 1543 / 2 ^ 53 * (P * (D * D))"
    using rel_mult [OF P0 DD0 P' Q] by simp
  define E where "E = P * (D * D)"
  have E0: "0 \<le> E" using P0 DD0 by (simp add: E_def)
  have "\<bar>fl (P' * Q) - E\<bar> \<le> 1545 / 2 ^ 53 * E"
    using rel_fl [OF E0 r [folded E_def]] by simp
  then have fin: "\<bar>fl (P' * Q) - E\<bar> \<le> E / 2 ^ 42" using E0 by simp
  have d: "fl (mB' - mF') = - dl"
    using fl_minus [of x] by (simp add: dl_def x_def)
  have sq: "(mB - mF) * (mB - mF) = D * D" unfolding D_def by (simp add: algebra_simps)
  have "exactBetween hist n j = wB * wF * ((mB - mF) * (mB - mF))"
    by (simp only: exactBetween_def Let_def mB_def mF_def wB_def wF_def sB_def sA_def)
  then have ex: "exactBetween hist n j = E" by (simp only: sq E_def P_def)
  have "betweenAt hist n j = fl (fl (wB * wF) * fl (fl (fl mB - fl mF) * fl (fl mB - fl mF)))"
    by (simp only: betweenAt_def Let_def mB_def mF_def wB_def wF_def sB_def sA_def)
  also have "fl (fl mB - fl mF) = - dl" using d by (simp only: mB'_def mF'_def)
  also have "- dl * - dl = dl * dl" by simp
  finally have bt: "betweenAt hist n j = fl (P' * Q)" by (simp only: P'_def P_def Q_def)
  show ?thesis using fin by (simp only: ex bt)
qed


lemma otsu_near_optimal:
  assumes n: "n = weightBefore hist 256"
    and vj: "validSplit hist n j" and vt: "validSplit hist n t"
    and le: "betweenAt hist n j \<le> betweenAt hist n t"
  shows "exactBetween hist n j \<le> (1 + 1 / 2 ^ 40) * exactBetween hist n t"
proof -
  define Ej where "Ej = exactBetween hist n j"
  define Et where "Et = exactBetween hist n t"
  have j: "\<bar>betweenAt hist n j - Ej\<bar> \<le> Ej / 2 ^ 42"
    unfolding Ej_def using vj n by (rule betweenAt_close)
  have t: "\<bar>betweenAt hist n t - Et\<bar> \<le> Et / 2 ^ 42"
    unfolding Et_def using vt n by (rule betweenAt_close)
  from j have lo: "Ej - Ej / 2 ^ 42 \<le> betweenAt hist n j" by linarith
  from t have hi: "betweenAt hist n t \<le> Et + Et / 2 ^ 42" by linarith
  from lo hi le have "Ej - Ej / 2 ^ 42 \<le> Et + Et / 2 ^ 42" by linarith
  then have a: "4398046511103 * Ej \<le> 4398046511105 * Et" by simp
  have "0 \<le> Et / 2 ^ 42" using t abs_ge_zero [of "betweenAt hist n t - Et"] by linarith
  then have Et0: "0 \<le> Et" by simp
  have "Ej * 1099511627776 \<le> 1099511627777 * Et" using a Et0 by linarith
  then have "Ej \<le> Et + Et / 2 ^ 40" by simp
  then show ?thesis by (simp add: Ej_def Et_def algebra_simps)
qed

lemma otsu_0112: "otsu [0, 1, 1, 2] 4 = 1"
  by code_simp

lemma valid_0112_0: "validSplit (histogram [0, 1, 1, 2]) 4 0"
  by code_simp

lemma exact_0112_0: "exactBetween (histogram [0, 1, 1, 2]) 4 0 = 16 / 3"
  by code_simp

lemma exact_0112_1: "exactBetween (histogram [0, 1, 1, 2]) 4 1 = 16 / 3"
  by code_simp

text \<open>
  Claim C5, as stated, fails: on the gray values \<open>[0, 1, 1, 2]\<close> the splits 0 and 1 are both
  valid and have the same between-class variance \<open>wB \<sqdot> wF \<sqdot> (mB - mF)\<^sup>2 = 16 / 3\<close>, the
  maximum; the smallest maximising split is 0, but the code returns 1. In double arithmetic
  the variance of split 1 is computed one unit in the last place above that of split 0, and
  the strict comparison takes it.
\<close>

theorem otsu_exact_tie_not_smallest:
  "otsu [0, 1, 1, 2] 4 = 1
   \<and> validSplit (histogram [0, 1, 1, 2]) 4 0
   \<and> exactBetween (histogram [0, 1, 1, 2]) 4 0 = 16 / 3
   \<and> exactBetween (histogram [0, 1, 1, 2]) 4 1 = 16 / 3"
  using otsu_0112 valid_0112_0 exact_0112_0 exact_0112_1 by blast

text \<open>
  Claim C5, amended: on a buffer of byte values the Otsu stage returns a threshold in
  \<open>[0, 255]\<close>. When some split has both classes non-empty, the threshold is such a split and
  it maximises the between-class variance as the doubles compute it (\<open>betweenAt\<close>: the formula
  \<open>wB \<sqdot> wF \<sqdot> (mB - mF)\<^sup>2\<close> with every division, subtraction and product rounded): the
  computed variance of no valid split is larger, and that of every valid split before the
  threshold is strictly smaller, so ties of the computed variance keep the smallest index.
  The exact variance \<open>wB \<sqdot> wF \<sqdot> (mB - mF)\<^sup>2\<close> of the threshold is maximal up to the rounding:
  no valid split exceeds it by more than the factor \<open>1 + 1 / 2 ^ 40\<close>. When no split is valid the
  threshold is 127. The scan stops at the first bin where the foreground weight is 0.
\<close>

theorem otsu_maximizes_between:
  assumes "\<forall>g \<in> set gray. g < 256"
  shows "let hist = histogram gray; n = int (length gray); t = otsu gray n
         in t < 256
          \<and> ((\<exists>i. validSplit hist n i) \<longrightarrow>
               validSplit hist n t
               \<and> (\<forall>j. validSplit hist n j \<longrightarrow> betweenAt hist n j \<le> betweenAt hist n t)
               \<and> (\<forall>j < t. validSplit hist n j \<longrightarrow> betweenAt hist n j < betweenAt hist n t)
               \<and> (\<forall>j. validSplit hist n j \<longrightarrow>
                     exactBetween hist n j \<le> (1 + 1 / 2 ^ 40) * exactBetween hist n t))
          \<and> ((\<forall>i. \<not> validSplit hist n i) \<longrightarrow> t = 127)
          \<and> (\<forall>i sumB wB maxVar thresh.
                i < 256 \<and> wB + int (hist ! i) \<noteq> 0 \<and> n - (wB + int (hist ! i)) = 0
                \<longrightarrow> otsuLoop hist n (weightedSum hist) i sumB wB maxVar thresh = thresh)"
proof -
  let ?h = "histogram gray" and ?n = "int (length gray)"
  let ?t = "otsu gray ?n"
  note spec = otsu_otsuSpec [OF assms]
  have n: "?n = weightBefore ?h 256" using histogram_total [OF assms] by simp
  have 1: "validSplit ?h ?n ?t
           \<and> (\<forall>j. validSplit ?h ?n j \<longrightarrow> betweenAt ?h ?n j \<le> betweenAt ?h ?n ?t)
           \<and> (\<forall>j < ?t. validSplit ?h ?n j \<longrightarrow> betweenAt ?h ?n j < betweenAt ?h ?n ?t)"
    if ex: "\<exists>i. validSplit ?h ?n i"
    using spec [unfolded otsuSpec_def if_P [OF ex]] .
  have 2: "?t = 127" if "\<forall>i. \<not> validSplit ?h ?n i"
  proof -
    from that have nex: "\<not> (\<exists>i. validSplit ?h ?n i)" by blast
    show ?thesis using spec [unfolded otsuSpec_def if_not_P [OF nex]] .
  qed
  have 3: "?t < 256"
  proof (cases "\<exists>i. validSplit ?h ?n i")
    case True
    from 1 [OF True] have "validSplit ?h ?n ?t" by blast
    then show ?thesis by (rule validSplit_less)
  next
    case False
    then have "?t = 127" using 2 by blast
    then show ?thesis by simp
  qed
  have 4: "\<forall>i sumB wB maxVar thresh.
             i < 256 \<and> wB + int (?h ! i) \<noteq> 0 \<and> ?n - (wB + int (?h ! i)) = 0
             \<longrightarrow> otsuLoop ?h ?n (weightedSum ?h) i sumB wB maxVar thresh = thresh"
    using otsuLoop_break by blast
  have 5: "\<forall>j. validSplit ?h ?n j \<longrightarrow>
             exactBetween ?h ?n j \<le> (1 + 1 / 2 ^ 40) * exactBetween ?h ?n ?t"
    if ex: "\<exists>i. validSplit ?h ?n i"
  proof (intro allI impI)
    fix j assume vj: "validSplit ?h ?n j"
    from 1 [OF ex] have vt: "validSplit ?h ?n ?t"
      and le: "betweenAt ?h ?n j \<le> betweenAt ?h ?n ?t" using vj by blast+
    from n vj vt le
    show "exactBetween ?h ?n j \<le> (1 + 1 / 2 ^ 40) * exactBetween ?h ?n ?t"
      by (rule otsu_near_optimal)
  qed
  show ?thesis unfolding Let_def
  proof (intro conjI impI)
    show "?t < 256" by (rule 3)
    show "validSplit ?h ?n ?t" if "\<exists>i. validSplit ?h ?n i"
      using 1 [OF that] by (rule conjunct1)
    show "\<forall>j. validSplit ?h ?n j \<longrightarrow> betweenAt ?h ?n j \<le> betweenAt ?h ?n ?t"
      if "\<exists>i. validSplit ?h ?n i"
      using 1 [OF that] by (elim conjE)
    show "\<forall>j < ?t. validSplit ?h ?n j \<longrightarrow> betweenAt ?h ?n j < betweenAt ?h ?n ?t"
      if "\<exists>i. validSplit ?h ?n i"
      using 1 [OF that] by (elim conjE)
    show "\<forall>j. validSplit ?h ?n j \<longrightarrow>
             exactBetween ?h ?n j \<le> (1 + 1 / 2 ^ 40) * exactBetween ?h ?n ?t"
      if "\<exists>i. validSplit ?h ?n i"
      using that by (rule 5)
    show "?t = 127" if "\<forall>i. \<not> validSplit ?h ?n i"
      using that by (rule 2)
    show "\<forall>i sumB wB maxVar thresh.
             i < 256 \<and> wB + int (?h ! i) \<noteq> 0 \<and> ?n - (wB + int (?h ! i)) = 0
             \<longrightarrow> otsuLoop ?h ?n (weightedSum ?h) i sumB wB maxVar thresh = thresh"
      by (rule 4)
  qed
qed

lemma valid_0: "validSplit (histogram [0, 2]) 2 0"
  by code_simp

lemma valid_1: "validSplit (histogram [0, 2]) 2 1"
  by code_simp

lemma otsu_0_2: "otsu [0, 2] 2 = 0"
  by code_simp

theorem otsu_maximizes_between_witness:
  "otsu [0, 2] 2 = 0
   \<and> validSplit (histogram [0, 2]) 2 (otsu [0, 2] 2)
   \<and> betweenAt (histogram [0, 2]) 2 1 \<le> betweenAt (histogram [0, 2]) 2 (otsu [0, 2] 2)
   \<and> exactBetween (histogram [0, 2]) 2 1
        \<le> (1 + 1 / 2 ^ 40) * exactBetween (histogram [0, 2]) 2 (otsu [0, 2] 2)"
proof -
  have g: "\<forall>g \<in> set [0, 2 :: nat]. g < 256" by simp
  have ex: "\<exists>i. validSplit (histogram [0, 2]) 2 i" using valid_0 by blast
  from otsu_maximizes_between [OF g] ex
  have "validSplit (histogram [0, 2]) 2 (otsu [0, 2] 2)"
    and "\<forall>j. validSplit (histogram [0, 2]) 2 j \<longrightarrow>
          betweenAt (histogram [0, 2]) 2 j \<le> betweenAt (histogram [0, 2]) 2 (otsu [0, 2] 2)"
    and "\<forall>j. validSplit (histogram [0, 2]) 2 j \<longrightarrow>
          exactBetween (histogram [0, 2]) 2 j
            \<le> (1 + 1 / 2 ^ 40) * exactBetween (histogram [0, 2]) 2 (otsu [0, 2] 2)"
    by (simp_all add: Let_def)
  with valid_1 otsu_0_2 show ?thesis by blast
qed

end
